theory Spec2Isabelle
  imports Main
begin

section \<open>Go slices and panics\<close>

text \<open>
  The package \<open>rb\<close> is generic in its element type \<open>T\<close>. Go's zero value of \<open>T\<close>
  (\<open>var zero T\<close>, and what \<open>make\<close> fills a fresh slice with) is the \<open>0\<close> of the
  type class \<open>zero\<close>. Go's \<open>int\<close> is modelled by \<open>int\<close>: every cursor and
  counter of the package stays between \<open>-len(buf)\<close> and \<open>len(buf)\<close>, so no
  machine arithmetic wraps. A slice is a list; the nil slice and the empty slice are
  both \<open>[]\<close>. Every slice the package stores is produced by \<open>make([]T, n)\<close>, for
  which \<open>cap\<close> and \<open>len\<close> agree. The mutex is not modelled: the operations are
  the sequential bodies executed under the lock.
\<close>

datatype panic = IndexOutOfRange | MakeLenOutOfRange | SliceBoundsOutOfRange | NilDereference

text \<open>
  \<open>make([]T, n)\<close> panics (\<open>makeslice: len out of range\<close>) for a negative length and
  for a length that is too large to allocate. The greatest length it allocates belongs to
  the Go runtime and to the element type, not to this package: it is at most the runtime's
  \<open>maxAlloc\<close> divided by the size of \<open>T\<close> (\<open>2^48 / 8 = 2^45\<close> for 8-byte values
  on 64-bit Linux). \<open>make_slice_upto\<close> takes this limit as the parameter \<open>lim\<close>.
\<close>

definition make_slice_upto :: "int \<Rightarrow> int \<Rightarrow> panic + ('a::zero) list" where
  "make_slice_upto lim n =
     (if n < 0 \<or> lim < n then Inl MakeLenOutOfRange else Inr (replicate (nat n) 0))"

text \<open>
  \<open>make_slice\<close> is \<open>make\<close> with the upper limit left out. It stands in the
  constructor and in \<open>Resize\<close>, whose properties are about the buffer that the call has
  built; where the allocation returns, it returns this slice.
\<close>

definition make_slice :: "int \<Rightarrow> panic + ('a::zero) list" where
  "make_slice n = (if n < 0 then Inl MakeLenOutOfRange else Inr (replicate (nat n) 0))"

text \<open>\<open>xs[i]\<close> as a read.\<close>

definition index :: "'a list \<Rightarrow> int \<Rightarrow> panic + 'a" where
  "index xs i = (if 0 \<le> i \<and> i < int (length xs) then Inr (xs ! nat i) else Inl IndexOutOfRange)"

text \<open>\<open>xs[i] = v\<close> as a write.\<close>

definition store :: "'a list \<Rightarrow> int \<Rightarrow> 'a \<Rightarrow> panic + 'a list" where
  "store xs i v = (if 0 \<le> i \<and> i < int (length xs) then Inr (xs[nat i := v]) else Inl IndexOutOfRange)"

text \<open>\<open>xs[:n]\<close>.\<close>

definition slice_to :: "'a list \<Rightarrow> int \<Rightarrow> panic + 'a list" where
  "slice_to xs n = (if 0 \<le> n \<and> n \<le> int (length xs) then Inr (take (nat n) xs) else Inl SliceBoundsOutOfRange)"

section \<open>The ring buffer (ring\_buffer.go)\<close>

record 'a RingBuffer =
  buf :: "'a list"
  cur :: int
  len :: int

definition NewRingBuffer :: "int \<Rightarrow> panic + ('a::zero) RingBuffer" where
  "NewRingBuffer sz =
     (case make_slice sz of
        Inl p \<Rightarrow> Inl p
      | Inr b \<Rightarrow> Inr \<lparr>buf = b, cur = 0, len = 0\<rparr>)"

subsection \<open>Add\<close>

definition Add :: "('a::zero) RingBuffer \<Rightarrow> 'a \<Rightarrow> panic + ('a RingBuffer \<times> 'a \<times> bool)" where
  "Add rb val =
     (if int (length (buf rb)) \<le> 0 then Inr (rb, 0, False)
      else
        case (if len rb \<ge> int (length (buf rb))
              then (case index (buf rb) (cur rb) of Inl p \<Rightarrow> Inl p | Inr d \<Rightarrow> Inr (d, True))
              else Inr (0, False)) of
          Inl p \<Rightarrow> Inl p
        | Inr (dropped, ok) \<Rightarrow>
            (case store (buf rb) (cur rb) val of
               Inl p \<Rightarrow> Inl p
             | Inr b \<Rightarrow>
                 let len' = (if len rb < int (length b) then len rb + 1 else len rb);
                     cur1 = cur rb + 1;
                     cur' = (if cur1 \<ge> int (length b) then cur1 - int (length b) else cur1)
                 in Inr (rb\<lparr>buf := b, cur := cur', len := len'\<rparr>, dropped, ok)))"

subsection \<open>Walk\<close>

text \<open>
  The visitor \<open>fn func(T) error\<close> is a closure: it reads and writes captured
  variables, here a state of type \<open>'s\<close>, and returns an optional error; it may
  also panic. The loop \<open>for i := range rb.len\<close> runs \<open>i\<close> from \<open>0\<close> while
  \<open>i < rb.len\<close>.
\<close>

function Walk_loop ::
  "'a RingBuffer \<Rightarrow> ('a \<Rightarrow> 's \<Rightarrow> panic + ('e option \<times> 's)) \<Rightarrow> int \<Rightarrow> 's \<Rightarrow> panic + ('e option \<times> 's)" where
  "Walk_loop rb fn i st =
     (if i < len rb then
        (let c = cur rb - 1 - i;
             c' = (if c < 0 then c + int (length (buf rb)) else c)
         in case index (buf rb) c' of
              Inl p \<Rightarrow> Inl p
            | Inr v \<Rightarrow>
                (case fn v st of
                   Inl p \<Rightarrow> Inl p
                 | Inr (Some err, st') \<Rightarrow> Inr (Some err, st')
                 | Inr (None, st') \<Rightarrow> Walk_loop rb fn (i + 1) st'))
      else Inr (None, st))"
  by pat_completeness auto
termination
  by (relation "measure (\<lambda>(rb, fn, i, st). nat (len rb - i))") auto

definition Walk ::
  "'a RingBuffer \<Rightarrow> ('a \<Rightarrow> 's \<Rightarrow> panic + ('e option \<times> 's)) \<Rightarrow> 's \<Rightarrow> panic + ('e option \<times> 's)" where
  "Walk rb fn st = Walk_loop rb fn 0 st"

text \<open>
  A full traversal: the visitor of the tests, \<open>func(i int) error { have = append(have, i);
  return nil }\<close>, started on an empty slice. \<open>walk_all\<close> is the sequence of values
  that \<open>Walk\<close> yields.
\<close>

definition collect :: "'a \<Rightarrow> 'a list \<Rightarrow> panic + (unit option \<times> 'a list)" where
  "collect v acc = Inr (None, acc @ [v])"

definition walk_all :: "'a RingBuffer \<Rightarrow> panic + 'a list" where
  "walk_all rb = (case Walk rb collect [] of Inl p \<Rightarrow> Inl p | Inr (err, acc) \<Rightarrow> Inr acc)"

subsection \<open>Overview\<close>

definition Overview :: "('a::zero) RingBuffer \<Rightarrow> panic + ('a \<times> 'a \<times> int)" where
  "Overview rb =
     (if len rb = 0 then Inr (0, 0, 0)
      else
        let headidx0 = cur rb - 1;
            headidx = (if headidx0 < 0 then headidx0 + int (length (buf rb)) else headidx0);
            tailidx0 = headidx - (len rb - 1);
            tailidx = (if tailidx0 < 0 then tailidx0 + int (length (buf rb)) else tailidx0)
        in case index (buf rb) headidx of
             Inl p \<Rightarrow> Inl p
           | Inr newest \<Rightarrow>
               (case index (buf rb) tailidx of
                  Inl p \<Rightarrow> Inl p
                | Inr oldest \<Rightarrow> Inr (newest, oldest, len rb)))"

subsection \<open>Copy and Take\<close>

datatype io_error = EOF

text \<open>The closure of \<open>Copy\<close>; its captured variables are \<open>dst\<close> and \<open>index\<close>.\<close>

definition Copy_fn :: "'a \<Rightarrow> 'a list \<times> int \<Rightarrow> panic + (io_error option \<times> 'a list \<times> int)" where
  "Copy_fn val st =
     (case st of (dst, idx) \<Rightarrow>
        if idx \<ge> int (length dst) then Inr (Some EOF, dst, idx)
        else (case store dst idx val of
                Inl p \<Rightarrow> Inl p
              | Inr dst' \<Rightarrow> Inr (None, dst', idx + 1)))"

text \<open>
  \<open>Copy\<close> discards what \<open>Walk\<close> returns and always reports a nil error. The
  result is the updated \<open>dst\<close>, the number of values copied and the error.
\<close>

definition Copy :: "'a RingBuffer \<Rightarrow> 'a list \<Rightarrow> panic + ('a list \<times> int \<times> io_error option)" where
  "Copy rb dst =
     (case Walk rb Copy_fn (dst, 0) of
        Inl p \<Rightarrow> Inl p
      | Inr (err, dst', idx) \<Rightarrow> Inr (dst', idx, None))"

text \<open>
  \<open>Take\<close> allocates \<open>dst\<close> with the length the caller passes; \<open>lim\<close> is the
  greatest length \<open>make\<close> allocates.
\<close>

definition Take :: "int \<Rightarrow> ('a::zero) RingBuffer \<Rightarrow> int \<Rightarrow> panic + ('a list \<times> io_error option)" where
  "Take lim rb n =
     (case make_slice_upto lim n of
        Inl p \<Rightarrow> Inl p
      | Inr dst \<Rightarrow>
          (case Copy rb dst of
             Inl p \<Rightarrow> Inl p
           | Inr (dst', n', err) \<Rightarrow>
               (case err of
                  Some e \<Rightarrow> Inr ([], Some e)
                | None \<Rightarrow>
                    (case slice_to dst' n' of
                       Inl p \<Rightarrow> Inl p
                     | Inr s \<Rightarrow> Inr (s, None)))))"

subsection \<open>Resize\<close>

text \<open>The loop \<open>for wrcur >= 0\<close>: returns the filled new slice and the read cursor.\<close>

function Resize_copy :: "'a list \<Rightarrow> 'a list \<Rightarrow> int \<Rightarrow> int \<Rightarrow> panic + ('a list \<times> int)" where
  "Resize_copy old new rdcur wrcur =
     (if wrcur \<ge> 0 then
        (case index old rdcur of
           Inl p \<Rightarrow> Inl p
         | Inr v \<Rightarrow>
             (case store new wrcur v of
                Inl p \<Rightarrow> Inl p
              | Inr new' \<Rightarrow>
                  (let r = rdcur - 1;
                       r' = (if r < 0 then r + int (length old) else r)
                   in Resize_copy old new' r' (wrcur - 1))))
      else Inr (new, rdcur))"
  by pat_completeness auto
termination
  by (relation "measure (\<lambda>(old, new, rdcur, wrcur). nat (wrcur + 1))") auto

text \<open>The loop \<open>for i := sz; i < rb.len; i++\<close>, with \<open>n\<close> for \<open>rb.len\<close>.\<close>

function Resize_dropped :: "'a list \<Rightarrow> int \<Rightarrow> int \<Rightarrow> int \<Rightarrow> 'a list \<Rightarrow> panic + 'a list" where
  "Resize_dropped old rdcur i n dropped =
     (if i < n then
        (case index old rdcur of
           Inl p \<Rightarrow> Inl p
         | Inr v \<Rightarrow>
             (let r = rdcur - 1;
                  r' = (if r < 0 then r + int (length old) else r)
              in Resize_dropped old r' (i + 1) n (dropped @ [v])))
      else Inr dropped)"
  by pat_completeness auto
termination
  by (relation "measure (\<lambda>(old, rdcur, i, n, dropped). nat (n - i))") auto

definition Resize :: "('a::zero) RingBuffer \<Rightarrow> int \<Rightarrow> panic + ('a RingBuffer \<times> 'a list)" where
  "Resize rb sz =
     (if sz \<le> 0 then Inr (rb, [])
      else
        let fill = (if len rb > sz then sz else len rb);
            rdcur0 = cur rb - 1;
            rdcur = (if rdcur0 < 0 then rdcur0 + len rb else rdcur0)
        in case make_slice sz of
             Inl p \<Rightarrow> Inl p
           | Inr b \<Rightarrow>
               (case Resize_copy (buf rb) b rdcur (fill - 1) of
                  Inl p \<Rightarrow> Inl p
                | Inr (b', rdcur') \<Rightarrow>
                    (case Resize_dropped (buf rb) rdcur' sz (len rb) [] of
                       Inl p \<Rightarrow> Inl p
                     | Inr dropped \<Rightarrow>
                         let cur' = (if fill \<ge> sz then fill - sz else fill)
                         in Inr (rb\<lparr>buf := b', cur := cur', len := fill\<rparr>, dropped))))"

text \<open>A sequence of \<open>Add\<close> calls on one buffer, in order; the returned pairs are discarded.\<close>

fun Adds :: "('a::zero) RingBuffer \<Rightarrow> 'a list \<Rightarrow> panic + 'a RingBuffer" where
  "Adds rb [] = Inr rb"
| "Adds rb (v # vs) =
     (case Add rb v of
        Inl p \<Rightarrow> Inl p
      | Inr (rb', dropped, ok) \<Rightarrow> Adds rb' vs)"

text \<open>The buffers a client can hold: built by the constructor and changed by the two mutators.\<close>

inductive reachable :: "('a::zero) RingBuffer \<Rightarrow> bool" where
  new: "NewRingBuffer n = Inr rb \<Longrightarrow> reachable rb"
| add: "reachable rb \<Longrightarrow> Add rb v = Inr (rb', d, ok) \<Longrightarrow> reachable rb'"
| resize: "reachable rb \<Longrightarrow> Resize rb n = Inr (rb', ds) \<Longrightarrow> reachable rb'"

section \<open>The set of ring buffers (ring\_buffers.go)\<close>

text \<open>
  \<open>bufs\<close> maps a category to a pointer. Pointers are addresses into a heap of ring
  buffers (a list, the address being the position); \<open>NewRingBuffer\<close> inside
  \<open>GetOrCreate\<close> allocates at the end of the heap. The Go map is an association
  list with one entry per category, in order of creation; \<open>range\<close> over a Go map
  visits every entry once in an unspecified order, and the loop of \<open>Resize\<close> treats
  each entry independently of the others.
\<close>

record RingBuffers =
  sz :: int
  bufs :: "(string \<times> nat) list"

record 'a pkg_state =
  rbs :: RingBuffers
  heap :: "'a RingBuffer list"

text \<open>
  \<open>src\<close> holds the file twice, and the two constructors differ. In the one whose field
  is \<open>sz\<close> (src/unnamed/part\_000) the constructor stores \<open>max(1, sz)\<close>.
\<close>

definition NewRingBuffers :: "int \<Rightarrow> RingBuffers" where
  "NewRingBuffers n = \<lparr>sz = max 1 n, bufs = []\<rparr>"

text \<open>
  In src/ring\_buffers.go, whose field is \<open>cap\<close>, the constructor stores \<open>cap\<close> as
  it is given. The field is \<open>sz\<close> here as well; the other methods are the same in both
  files.
\<close>

definition NewRingBuffers_cap :: "int \<Rightarrow> RingBuffers" where
  "NewRingBuffers_cap n = \<lparr>sz = n, bufs = []\<rparr>"

definition deref :: "'a RingBuffer list \<Rightarrow> nat \<Rightarrow> panic + 'a RingBuffer" where
  "deref h a = (if a < length h then Inr (h ! a) else Inl NilDereference)"

definition GetOrCreate :: "('a::zero) pkg_state \<Rightarrow> string \<Rightarrow> panic + (nat \<times> 'a pkg_state)" where
  "GetOrCreate s category =
     (case map_of (bufs (rbs s)) category of
        Some a \<Rightarrow> Inr (a, s)
      | None \<Rightarrow>
          (case NewRingBuffer (sz (rbs s)) of
             Inl p \<Rightarrow> Inl p
           | Inr rb \<Rightarrow>
               Inr (length (heap s),
                    s\<lparr>rbs := (rbs s)\<lparr>bufs := bufs (rbs s) @ [(category, length (heap s))]\<rparr>,
                      heap := heap s @ [rb]\<rparr>)))"

definition GetAll :: "'a pkg_state \<Rightarrow> (string \<times> nat) list" where
  "GetAll s = bufs (rbs s)"

text \<open>
  The loop \<open>for name, rb := range rbs.bufs\<close> of \<open>RingBuffers.Resize\<close>, with
  \<open>dropped[name] = append(dropped[name], rb.Resize(sz)...)\<close>.
\<close>

fun Resize_each ::
  "(string \<times> nat) list \<Rightarrow> int \<Rightarrow> ('a::zero) RingBuffer list \<Rightarrow> (string \<rightharpoonup> 'a list)
     \<Rightarrow> panic + ('a RingBuffer list \<times> (string \<rightharpoonup> 'a list))" where
  "Resize_each [] n h dropped = Inr (h, dropped)"
| "Resize_each ((name, a) # rest) n h dropped =
     (case deref h a of
        Inl p \<Rightarrow> Inl p
      | Inr rb \<Rightarrow>
          (case Resize rb n of
             Inl p \<Rightarrow> Inl p
           | Inr (rb', ds) \<Rightarrow>
               Resize_each rest n (h[a := rb'])
                 (dropped(name \<mapsto> (case dropped name of None \<Rightarrow> [] | Some xs \<Rightarrow> xs) @ ds))))"

text \<open>\<open>RingBuffers.Resize\<close>. The nil map is \<open>None\<close>.\<close>

definition RingBuffers_Resize ::
  "('a::zero) pkg_state \<Rightarrow> int \<Rightarrow> panic + ('a pkg_state \<times> (string \<rightharpoonup> 'a list) option)" where
  "RingBuffers_Resize s n =
     (if n \<le> 0 then Inr (s, None)
      else
        (case Resize_each (bufs (rbs s)) n (heap s) Map.empty of
           Inl p \<Rightarrow> Inl p
         | Inr (h', dropped) \<Rightarrow>
             Inr (s\<lparr>rbs := (rbs s)\<lparr>sz := n\<rparr>, heap := h'\<rparr>, Some dropped)))"

text \<open>Method calls through a pointer: the buffer at the address is updated in place.\<close>

definition Add_at :: "('a::zero) pkg_state \<Rightarrow> nat \<Rightarrow> 'a \<Rightarrow> panic + ('a pkg_state \<times> 'a \<times> bool)" where
  "Add_at s a v =
     (case deref (heap s) a of
        Inl p \<Rightarrow> Inl p
      | Inr rb \<Rightarrow>
          (case Add rb v of
             Inl p \<Rightarrow> Inl p
           | Inr (rb', d, ok) \<Rightarrow> Inr (s\<lparr>heap := (heap s)[a := rb']\<rparr>, d, ok)))"

definition Resize_at :: "('a::zero) pkg_state \<Rightarrow> nat \<Rightarrow> int \<Rightarrow> panic + ('a pkg_state \<times> 'a list)" where
  "Resize_at s a n =
     (case deref (heap s) a of
        Inl p \<Rightarrow> Inl p
      | Inr rb \<Rightarrow>
          (case Resize rb n of
             Inl p \<Rightarrow> Inl p
           | Inr (rb', ds) \<Rightarrow> Inr (s\<lparr>heap := (heap s)[a := rb']\<rparr>, ds)))"

definition walk_all_at :: "'a pkg_state \<Rightarrow> nat \<Rightarrow> panic + 'a list" where
  "walk_all_at s a = (case deref (heap s) a of Inl p \<Rightarrow> Inl p | Inr rb \<Rightarrow> walk_all rb)"

text \<open>The calls a client can make on a set of ring buffers and on the pointers it hands out.\<close>

datatype 'a call =
    CallGetOrCreate string
  | CallResizeAll int
  | CallAdd nat 'a
  | CallResize nat int

fun exec :: "('a::zero) pkg_state \<Rightarrow> 'a call \<Rightarrow> panic + 'a pkg_state" where
  "exec s (CallGetOrCreate k) = (case GetOrCreate s k of Inl p \<Rightarrow> Inl p | Inr (a, s') \<Rightarrow> Inr s')"
| "exec s (CallResizeAll n) = (case RingBuffers_Resize s n of Inl p \<Rightarrow> Inl p | Inr (s', ds) \<Rightarrow> Inr s')"
| "exec s (CallAdd a v) = (case Add_at s a v of Inl p \<Rightarrow> Inl p | Inr (s', d, ok) \<Rightarrow> Inr s')"
| "exec s (CallResize a n) = (case Resize_at s a n of Inl p \<Rightarrow> Inl p | Inr (s', ds) \<Rightarrow> Inr s')"

fun execs :: "('a::zero) pkg_state \<Rightarrow> 'a call list \<Rightarrow> panic + 'a pkg_state" where
  "execs s [] = Inr s"
| "execs s (c # cs) = (case exec s c of Inl p \<Rightarrow> Inl p | Inr s' \<Rightarrow> execs s' cs)"

definition init_state :: "int \<Rightarrow> 'a pkg_state" where
  "init_state n = \<lparr>rbs = NewRingBuffers n, heap = []\<rparr>"

definition init_state_cap :: "int \<Rightarrow> 'a pkg_state" where
  "init_state_cap n = \<lparr>rbs = NewRingBuffers_cap n, heap = []\<rparr>"

text \<open>
  The states of a set of ring buffers that a client can bring about, starting from
  \<open>NewRingBuffers(n)\<close> of either file.
\<close>

inductive reachable_state :: "('a::zero) pkg_state \<Rightarrow> bool" where
  init: "reachable_state (init_state n)"
| init_cap: "reachable_state (init_state_cap n)"
| step: "reachable_state s \<Longrightarrow> exec s c = Inr s' \<Longrightarrow> reachable_state s'"

text \<open>The calls that change the default size: \<open>RingBuffers.Resize\<close> with a positive size.\<close>

fun changes_default :: "'a call \<Rightarrow> bool" where
  "changes_default (CallResizeAll n) = (0 < n)"
| "changes_default (CallGetOrCreate k) = False"
| "changes_default (CallAdd a v) = False"
| "changes_default (CallResize a n) = False"

section \<open>Logical contents and invariants\<close>

text \<open>
  The slot holding the \<open>i\<close>-th newest value, and the values of the \<open>len\<close> newest
  slots, newest first.
\<close>

definition slot :: "'a RingBuffer \<Rightarrow> int \<Rightarrow> int" where
  "slot rb i = (cur rb - 1 - i) mod int (length (buf rb))"

definition contents :: "'a RingBuffer \<Rightarrow> 'a list" where
  "contents rb = map (\<lambda>i. buf rb ! nat (slot rb (int i))) [0..<nat (len rb)]"

definition rb_inv :: "'a RingBuffer \<Rightarrow> bool" where
  "rb_inv rb \<longleftrightarrow>
     0 \<le> len rb \<and> len rb \<le> int (length (buf rb)) \<and> 0 \<le> cur rb \<and>
     (len rb < int (length (buf rb)) \<longrightarrow> cur rb = len rb) \<and>
     (len rb = int (length (buf rb)) \<longrightarrow> cur rb < int (length (buf rb)) \<or> cur rb = 0)"

definition state_inv :: "'a pkg_state \<Rightarrow> bool" where
  "state_inv s \<longleftrightarrow>
     (\<forall>(k, a) \<in> set (bufs (rbs s)). a < length (heap s)) \<and>
     (\<forall>rb \<in> set (heap s). rb_inv rb)"

text \<open>The state that \<open>Add\<close> leaves behind on a buffer of positive capacity.\<close>

definition Add_next :: "('a::zero) RingBuffer \<Rightarrow> 'a \<Rightarrow> 'a RingBuffer" where
  "Add_next rb v = rb\<lparr>buf := (buf rb)[nat (cur rb) := v],
      cur := (cur rb + 1) mod int (length (buf rb)),
      len := min (len rb + 1) (int (length (buf rb)))\<rparr>"

section \<open>Lists, slices and index arithmetic\<close>

declare Walk_loop.simps [simp del] Resize_copy.simps [simp del] Resize_dropped.simps [simp del]


lemma index_in: "0 \<le> i \<Longrightarrow> i < int (length xs) \<Longrightarrow> index xs i = Inr (xs ! nat i)"
  by (simp add: index_def)

lemma store_in: "0 \<le> i \<Longrightarrow> i < int (length xs) \<Longrightarrow> store xs i v = Inr (xs[nat i := v])"
  by (simp add: store_def)

lemma wrap_mod:
  fixes c n :: int
  assumes "- n \<le> c" "c < n"
  shows "(if c < 0 then c + n else c) = c mod n"
proof (cases "c < 0")
  case True
  have "c mod n = (c + n) mod n" by simp
  also have "\<dots> = c + n" using True assms by (intro mod_pos_pos_trivial) auto
  finally show ?thesis using True by simp
next
  case False
  then show ?thesis using assms by (simp add: mod_pos_pos_trivial)
qed

lemma slot_range:
  "0 < int (length (buf rb)) \<Longrightarrow> 0 \<le> slot rb i \<and> slot rb i < int (length (buf rb))"
  by (simp add: slot_def)

lemma Walk_index:
  assumes "rb_inv rb" "0 \<le> i" "i < len rb"
  shows "(if cur rb - 1 - i < 0 then cur rb - 1 - i + int (length (buf rb)) else cur rb - 1 - i) = slot rb i"
  unfolding slot_def using assms by (intro wrap_mod) (auto simp: rb_inv_def)

lemma Walk_loop_collect:
  assumes "rb_inv rb"
  shows "k = nat (len rb - i) \<Longrightarrow> 0 \<le> i \<Longrightarrow> i \<le> len rb \<Longrightarrow>
    Walk_loop rb collect i acc = Inr (None, acc @ map (\<lambda>j. buf rb ! nat (slot rb (int j))) [nat i..<nat (len rb)])"
proof (induction k arbitrary: i acc)
  case 0
  then have "i = len rb" by simp
  then show ?case by (subst Walk_loop.simps) simp
next
  case (Suc k)
  then have lt: "i < len rb" and i0: "0 \<le> i" by auto
  have cap: "0 < int (length (buf rb))" using assms lt i0 by (auto simp: rb_inv_def)
  have rd: "index (buf rb) (slot rb i) = Inr (buf rb ! nat (slot rb i))"
    using slot_range[OF cap, of i] by (intro index_in) auto
  have IH: "Walk_loop rb collect (i + 1) (acc @ [buf rb ! nat (slot rb i)]) =
      Inr (None, (acc @ [buf rb ! nat (slot rb i)]) @ map (\<lambda>j. buf rb ! nat (slot rb (int j))) [nat (i + 1)..<nat (len rb)])"
    using Suc.prems lt i0 by (intro Suc.IH) auto
  have s: "nat (i + 1) = Suc (nat i)" using i0 by simp
  have up: "[nat i..<nat (len rb)] = nat i # [nat (i + 1)..<nat (len rb)]"
    unfolding s by (rule upt_conv_Cons) (use lt i0 in simp)
  have step: "Walk_loop rb collect i acc = Walk_loop rb collect (i + 1) (acc @ [buf rb ! nat (slot rb i)])"
    by (subst Walk_loop.simps)
       (simp only: lt if_True Let_def Walk_index[OF assms i0 lt] rd collect_def sum.case prod.case option.case)
  have "(acc @ [buf rb ! nat (slot rb i)]) @ map (\<lambda>j. buf rb ! nat (slot rb (int j))) [nat (i + 1)..<nat (len rb)]
      = acc @ map (\<lambda>j. buf rb ! nat (slot rb (int j))) [nat i..<nat (len rb)]"
    unfolding up using i0 by simp
  then show ?case using step IH by simp
qed

lemma walk_all_contents: "rb_inv rb \<Longrightarrow> walk_all rb = Inr (contents rb)"
  using Walk_loop_collect[of rb "nat (len rb)" 0 "[]"]
  by (simp add: walk_all_def Walk_def contents_def rb_inv_def)

lemma Add_result:
  assumes "rb_inv rb" "0 < length (buf rb)"
  shows "Add rb v = Inr (Add_next rb v,
           if len rb = int (length (buf rb)) then buf rb ! nat (cur rb) else 0,
           len rb = int (length (buf rb)))"
proof -
  let ?c = "int (length (buf rb))"
  have c: "0 \<le> cur rb" "cur rb < ?c" "len rb \<le> ?c" using assms by (auto simp: rb_inv_def)
  have w: "(if cur rb + 1 \<ge> ?c then cur rb + 1 - ?c else cur rb + 1) = (cur rb + 1) mod ?c"
  proof (cases "cur rb + 1 \<ge> ?c")
    case True
    then have "cur rb + 1 = ?c" using c by simp
    then show ?thesis by simp
  next
    case False
    then show ?thesis using c by (simp add: mod_pos_pos_trivial)
  qed
  show ?thesis
    using c assms(2) w
    by (auto simp: Add_def Add_next_def index_def store_def Let_def min_def)
qed

lemma Add_next_inv:
  assumes "rb_inv rb" "0 < length (buf rb)"
  shows "rb_inv (Add_next rb v)"
proof -
  let ?c = "int (length (buf rb))"
  have c: "0 \<le> cur rb" "cur rb < ?c" "len rb \<le> ?c" "0 \<le> len rb" "len rb < ?c \<Longrightarrow> cur rb = len rb"
    using assms by (auto simp: rb_inv_def)
  have m: "0 \<le> (cur rb + 1) mod ?c" "(cur rb + 1) mod ?c < ?c" using assms(2) by simp_all
  have e: "len rb + 1 < ?c \<Longrightarrow> (cur rb + 1) mod ?c = len rb + 1"
    using c by (simp add: mod_pos_pos_trivial)
  show ?thesis
    using c m e by (auto simp: rb_inv_def Add_next_def min_def)
qed

lemma slot_Add_next:
  assumes "0 < length (buf rb)"
  shows "slot (Add_next rb v) j = (cur rb - j) mod int (length (buf rb))"
proof -
  let ?c = "int (length (buf rb))"
  have "slot (Add_next rb v) j = ((cur rb + 1) mod ?c - (1 + j)) mod ?c"
    by (simp add: slot_def Add_next_def algebra_simps)
  also have "\<dots> = (cur rb + 1 - (1 + j)) mod ?c"
    by (simp only: mod_diff_left_eq)
  also have "cur rb + 1 - (1 + j) = cur rb - j" by simp
  finally show ?thesis .
qed

lemma mod_shift_neq:
  fixes c x j :: int
  assumes "0 < j" "j < c"
  shows "(x - j) mod c \<noteq> x mod c"
proof
  assume "(x - j) mod c = x mod c"
  then have "c dvd (x - (x - j))" by (metis mod_eq_dvd_iff)
  then have "c dvd j" by simp
  then show False using assms by (meson zdvd_not_zless)
qed

lemma length_contents: "length (contents rb) = nat (len rb)"
  by (simp add: contents_def)

lemma contents_nth: "j < nat (len rb) \<Longrightarrow> contents rb ! j = buf rb ! nat (slot rb (int j))"
  by (simp add: contents_def)

lemma Add_next_sel:
  "buf (Add_next rb v) = (buf rb)[nat (cur rb) := v]"
  "len (Add_next rb v) = min (len rb + 1) (int (length (buf rb)))"
  "cur (Add_next rb v) = (cur rb + 1) mod int (length (buf rb))"
  by (simp_all add: Add_next_def)

lemma contents_Add_next:
  assumes "rb_inv rb" "0 < length (buf rb)"
  shows "contents (Add_next rb v) = take (length (buf rb)) (v # contents rb)"
proof (rule nth_equalityI)
  let ?c = "int (length (buf rb))"
  have c: "0 \<le> cur rb" "cur rb < ?c" "len rb \<le> ?c" "0 \<le> len rb"
    using assms by (auto simp: rb_inv_def)
  show L: "length (contents (Add_next rb v)) = length (take (length (buf rb)) (v # contents rb))"
    using c by (auto simp: length_contents Add_next_sel min_def)
  fix j assume "j < length (contents (Add_next rb v))"
  then have jl: "j < nat (len (Add_next rb v))" by (simp add: length_contents)
  then have j: "int j < ?c" "int j < len rb + 1"
    using c by (auto simp: Add_next_sel min_def split: if_splits)
  have lhs: "contents (Add_next rb v) ! j = (buf rb)[nat (cur rb) := v] ! nat ((cur rb - int j) mod ?c)"
    using slot_Add_next[OF assms(2), of v "int j"]
    by (simp add: contents_nth[OF jl] Add_next_sel)
  show "contents (Add_next rb v) ! j = take (length (buf rb)) (v # contents rb) ! j"
  proof (cases j)
    case 0
    then show ?thesis using lhs c assms(2) by (simp add: mod_pos_pos_trivial)
  next
    case (Suc i)
    have ne: "(cur rb - int j) mod ?c \<noteq> cur rb"
      using mod_shift_neq[of "int j" ?c "cur rb"] j Suc c by (simp add: mod_pos_pos_trivial)
    have r: "0 \<le> (cur rb - int j) mod ?c" using assms(2) by simp
    have "(buf rb)[nat (cur rb) := v] ! nat ((cur rb - int j) mod ?c) = buf rb ! nat ((cur rb - int j) mod ?c)"
      using ne r c by (intro nth_list_update_neq) auto
    moreover have "contents rb ! i = buf rb ! nat (slot rb (int i))"
      using j Suc by (intro contents_nth) auto
    moreover have "slot rb (int i) = (cur rb - int j) mod ?c"
      using Suc by (simp add: slot_def algebra_simps)
    ultimately show ?thesis using lhs Suc j by simp
  qed
qed

lemma contents_last:
  assumes "rb_inv rb" "0 < length (buf rb)" "len rb = int (length (buf rb))"
  shows "last (contents rb) = buf rb ! nat (cur rb)"
proof -
  let ?c = "int (length (buf rb))"
  have c: "0 \<le> cur rb" "cur rb < ?c" using assms by (auto simp: rb_inv_def)
  have ne: "contents rb \<noteq> []" using assms by (simp add: contents_def)
  have "last (contents rb) = contents rb ! (length (buf rb) - 1)"
    using assms by (simp add: last_conv_nth[OF ne]) (simp add: contents_def)
  also have "\<dots> = buf rb ! nat (slot rb (int (length (buf rb) - 1)))"
    using assms by (simp add: contents_def)
  also have "int (length (buf rb) - 1) = ?c - 1"
    using assms(2) by arith
  also have "slot rb (?c - 1) = cur rb"
    using c by (simp add: slot_def mod_pos_pos_trivial)
  finally show ?thesis .
qed

lemma Resize_step:
  fixes r c :: int
  assumes "0 \<le> r" "r < c"
  shows "(if r - 1 < 0 then r - 1 + c else r - 1) = (r - 1) mod c"
  using assms by (intro wrap_mod) auto

lemma Resize_copy_run:
  assumes c: "0 < length old"
  shows "k = nat (w + 1) \<Longrightarrow> - 1 \<le> w \<Longrightarrow> w < int (length new) \<Longrightarrow> 0 \<le> r \<Longrightarrow> r < int (length old) \<Longrightarrow>
    \<exists>new'. Resize_copy old new r w = Inr (new', (r - (w + 1)) mod int (length old)) \<and>
       length new' = length new \<and>
       (\<forall>q. int q \<le> w \<longrightarrow> new' ! q = old ! nat ((r - (w - int q)) mod int (length old))) \<and>
       (\<forall>q. w < int q \<longrightarrow> new' ! q = new ! q)"
proof (induction k arbitrary: w r new)
  case 0
  then have "w = - 1" by simp
  then show ?case using 0 by (subst Resize_copy.simps) (simp add: mod_pos_pos_trivial)
next
  case (Suc k)
  let ?c = "int (length old)"
  let ?new = "new[nat w := old ! nat r]"
  let ?r = "(r - 1) mod ?c"
  have w0: "0 \<le> w" using Suc.prems by simp
  have step: "Resize_copy old new r w = Resize_copy old ?new ?r (w - 1)"
    using w0 Suc.prems Resize_step[of r ?c]
    by (subst Resize_copy.simps) (simp add: index_def store_def Let_def)
  have "\<exists>new'. Resize_copy old ?new ?r (w - 1) = Inr (new', (?r - (w - 1 + 1)) mod ?c) \<and>
       length new' = length ?new \<and>
       (\<forall>q. int q \<le> w - 1 \<longrightarrow> new' ! q = old ! nat ((?r - (w - 1 - int q)) mod ?c)) \<and>
       (\<forall>q. w - 1 < int q \<longrightarrow> new' ! q = ?new ! q)"
    using Suc.prems c by (intro Suc.IH) auto
  then obtain new' where n: "Resize_copy old ?new ?r (w - 1) = Inr (new', (?r - (w - 1 + 1)) mod ?c)"
      "length new' = length new"
      "\<And>q. int q \<le> w - 1 \<Longrightarrow> new' ! q = old ! nat ((?r - (w - 1 - int q)) mod ?c)"
      "\<And>q. w - 1 < int q \<Longrightarrow> new' ! q = ?new ! q"
    by auto
  have m1: "(?r - (w - 1 + 1)) mod ?c = (r - (w + 1)) mod ?c"
  proof -
    have "(?r - (w - 1 + 1)) mod ?c = (r - 1 - (w - 1 + 1)) mod ?c" by (simp only: mod_diff_left_eq)
    also have "r - 1 - (w - 1 + 1) = r - (w + 1)" by simp
    finally show ?thesis .
  qed
  have m2: "(?r - (w - 1 - int q)) mod ?c = (r - (w - int q)) mod ?c" for q
  proof -
    have "(?r - (w - 1 - int q)) mod ?c = (r - 1 - (w - 1 - int q)) mod ?c" by (simp only: mod_diff_left_eq)
    also have "r - 1 - (w - 1 - int q) = r - (w - int q)" by simp
    finally show ?thesis .
  qed
  have below: "new' ! q = old ! nat ((r - (w - int q)) mod ?c)" if "int q \<le> w" for q
  proof (cases "int q = w")
    case True
    then have "new' ! q = ?new ! q" using n(4)[of q] by simp
    also have "\<dots> = old ! nat r"
    proof -
      have "nat w = q" "q < length new" using True Suc.prems by auto
      then show ?thesis by simp
    qed
    finally show ?thesis using True Suc.prems by (simp add: mod_pos_pos_trivial)
  next
    case False
    then have "int q \<le> w - 1" using that by simp
    then show ?thesis using n(3)[of q] m2[of q] by simp
  qed
  have above: "new' ! q = new ! q" if "w < int q" for q
  proof -
    have "new' ! q = ?new ! q" using n(4)[of q] that by simp
    also have "\<dots> = new ! q" using that w0 by (intro nth_list_update_neq) auto
    finally show ?thesis .
  qed
  show ?case using step n(1,2) m1 below above by simp
qed

lemma Resize_dropped_run:
  assumes c: "0 < length old"
  shows "k = nat (n - i) \<Longrightarrow> 0 \<le> r \<Longrightarrow> r < int (length old) \<Longrightarrow>
    Resize_dropped old r i n acc =
      Inr (acc @ map (\<lambda>t. old ! nat ((r - int t) mod int (length old))) [0..<nat (n - i)])"
proof (induction k arbitrary: i r acc)
  case 0
  then show ?case by (subst Resize_dropped.simps) simp
next
  case (Suc k)
  let ?c = "int (length old)"
  let ?r = "(r - 1) mod ?c"
  have lt: "i < n" using Suc.prems by simp
  have step: "Resize_dropped old r i n acc = Resize_dropped old ?r (i + 1) n (acc @ [old ! nat r])"
    using lt Suc.prems Resize_step[of r ?c]
    by (subst Resize_dropped.simps) (simp add: index_def Let_def)
  have IH: "Resize_dropped old ?r (i + 1) n (acc @ [old ! nat r]) =
      Inr ((acc @ [old ! nat r]) @ map (\<lambda>t. old ! nat ((?r - int t) mod ?c)) [0..<nat (n - (i + 1))])"
    using Suc.prems c by (intro Suc.IH) auto
  have m: "(?r - int t) mod ?c = (r - int (Suc t)) mod ?c" for t
  proof -
    have "(?r - int t) mod ?c = (r - 1 - int t) mod ?c" by (simp only: mod_diff_left_eq)
    also have "r - 1 - int t = r - int (Suc t)" by simp
    finally show ?thesis .
  qed
  have split: "[0..<nat (n - i)] = 0 # map Suc [0..<nat (n - (i + 1))]"
  proof -
    have "nat (n - i) = Suc (nat (n - (i + 1)))" using lt by simp
    then show ?thesis by (simp add: upt_conv_Cons map_Suc_upt del: upt_Suc)
  qed
  show ?case
    unfolding step IH split using Suc.prems by (simp add: m comp_def mod_pos_pos_trivial)
qed

lemma Resize_empty:
  assumes "rb_inv rb" "0 < m" "len rb = 0"
  shows "Resize rb m = Inr (rb\<lparr>buf := replicate (nat m) 0, cur := 0, len := 0\<rparr>, [])"
proof -
  have "Resize_copy (buf rb) b r (- 1) = Inr (b, r)" for b :: "'a list" and r
    by (subst Resize_copy.simps) simp
  moreover have "Resize_dropped (buf rb) r m 0 [] = Inr []" for r
    using assms(2) by (subst Resize_dropped.simps) simp
  ultimately show ?thesis
    using assms by (auto simp: Resize_def make_slice_def Let_def rb_inv_def)
qed

lemma Resize_nonempty:
  assumes inv: "rb_inv rb" and m: "0 < m" and l: "0 < len rb"
  shows "\<exists>b'. Resize rb m = Inr (rb\<lparr>buf := b', cur := (if min (len rb) m = m then 0 else min (len rb) m),
                                    len := min (len rb) m\<rparr>, drop (nat m) (contents rb)) \<and>
           length b' = nat m \<and>
           (\<forall>q. int q < min (len rb) m \<longrightarrow> b' ! q = contents rb ! nat (min (len rb) m - 1 - int q))"
proof -
  let ?c = "int (length (buf rb))"
  let ?fill = "min (len rb) m"
  have c: "0 \<le> cur rb" "cur rb < ?c" "len rb \<le> ?c" "0 < length (buf rb)"
    using inv l by (auto simp: rb_inv_def)
  have full: "cur rb = 0 \<Longrightarrow> len rb = ?c" using inv l by (auto simp: rb_inv_def)
  have fill: "(if len rb > m then m else len rb) = ?fill" by (simp add: min_def)
  have r0: "(if cur rb - 1 < 0 then cur rb - 1 + len rb else cur rb - 1) = slot rb 0"
  proof (cases "cur rb = 0")
    case True
    then show ?thesis using full c by (simp add: slot_def zmod_minus1)
  next
    case False
    then show ?thesis using c by (simp add: slot_def mod_pos_pos_trivial)
  qed
  have sr: "0 \<le> slot rb 0" "slot rb 0 < ?c" using c by (simp_all add: slot_def)
  have "\<exists>new'. Resize_copy (buf rb) (replicate (nat m) 0) (slot rb 0) (?fill - 1)
        = Inr (new', (slot rb 0 - (?fill - 1 + 1)) mod ?c) \<and>
      length new' = length (replicate (nat m) (0::'a)) \<and>
      (\<forall>q. int q \<le> ?fill - 1 \<longrightarrow> new' ! q = buf rb ! nat ((slot rb 0 - (?fill - 1 - int q)) mod ?c)) \<and>
      (\<forall>q. ?fill - 1 < int q \<longrightarrow> new' ! q = replicate (nat m) 0 ! q)"
    using sr m l by (intro Resize_copy_run[OF c(4), of "nat (?fill - 1 + 1)"]) auto
  then obtain b' where b1: "Resize_copy (buf rb) (replicate (nat m) 0) (slot rb 0) (?fill - 1)
        = Inr (b', (slot rb 0 - (?fill - 1 + 1)) mod ?c)"
      and b2: "length b' = length (replicate (nat m) (0::'a))"
      and b3: "\<forall>q. int q \<le> ?fill - 1 \<longrightarrow> b' ! q = buf rb ! nat ((slot rb 0 - (?fill - 1 - int q)) mod ?c)"
    by (elim exE conjE)
  have s1: "(slot rb 0 - x) mod ?c = slot rb x" for x
  proof -
    have "(slot rb 0 - x) mod ?c = (cur rb - 1 - 0 - x) mod ?c"
      unfolding slot_def by (simp only: mod_diff_left_eq)
    also have "cur rb - 1 - 0 - x = cur rb - 1 - x" by simp
    finally show ?thesis by (simp only: slot_def)
  qed
  have sf: "0 \<le> slot rb ?fill" "slot rb ?fill < ?c" using c by (simp_all add: slot_def)
  have dr: "Resize_dropped (buf rb) (slot rb ?fill) m (len rb) [] = Inr (drop (nat m) (contents rb))"
  proof -
    have "map (\<lambda>t. buf rb ! nat ((slot rb ?fill - int t) mod ?c)) [0..<nat (len rb - m)]
        = drop (nat m) (contents rb)"
    proof (rule nth_equalityI)
      show "length (map (\<lambda>t. buf rb ! nat ((slot rb ?fill - int t) mod ?c)) [0..<nat (len rb - m)])
          = length (drop (nat m) (contents rb))"
        using m by (simp add: length_contents nat_diff_distrib)
      fix t assume "t < length (map (\<lambda>t. buf rb ! nat ((slot rb ?fill - int t) mod ?c)) [0..<nat (len rb - m)])"
      then have t': "t < nat (len rb - m)" by simp
      then have t: "int t < len rb - m" by simp
      then have f: "?fill = m" by simp
      have "(slot rb ?fill - int t) mod ?c = slot rb (m + int t)"
      proof -
        have "(slot rb ?fill - int t) mod ?c = (cur rb - 1 - ?fill - int t) mod ?c"
          unfolding slot_def by (simp only: mod_diff_left_eq)
        also have "cur rb - 1 - ?fill - int t = cur rb - 1 - (m + int t)" using f by simp
        finally show ?thesis by (simp only: slot_def)
      qed
      moreover have "drop (nat m) (contents rb) ! t = contents rb ! (nat m + t)"
        using t m by (simp add: length_contents)
      moreover have "contents rb ! (nat m + t) = buf rb ! nat (slot rb (int (nat m + t)))"
        using t m by (intro contents_nth) auto
      ultimately show "map (\<lambda>t. buf rb ! nat ((slot rb ?fill - int t) mod ?c)) [0..<nat (len rb - m)] ! t
          = drop (nat m) (contents rb) ! t"
        using t' m by simp
    qed
    then show ?thesis
      using Resize_dropped_run[OF c(4), of "nat (len rb - m)" "len rb" m "slot rb ?fill" "[]"] sf
      by simp
  qed
  have cur': "(if ?fill \<ge> m then ?fill - m else ?fill) = (if ?fill = m then 0 else ?fill)"
    by (auto simp: min_def)
  have cp: "Resize_copy (buf rb) (replicate (nat m) 0) (slot rb 0) (?fill - 1) = Inr (b', slot rb ?fill)"
    using b1 s1[of ?fill] by simp
  have res: "Resize rb m = Inr (rb\<lparr>buf := b', cur := (if ?fill = m then 0 else ?fill), len := ?fill\<rparr>,
      drop (nat m) (contents rb))"
    unfolding Resize_def fill r0 Let_def cur' make_slice_def
    using m by (simp add: cp dr)
  have nth: "b' ! q = contents rb ! nat (?fill - 1 - int q)" if "int q < ?fill" for q
  proof -
    have "int q \<le> ?fill - 1" using that by simp
    then have "b' ! q = buf rb ! nat ((slot rb 0 - (?fill - 1 - int q)) mod ?c)"
      using b3 by blast
    then have "b' ! q = buf rb ! nat (slot rb (?fill - 1 - int q))"
      by (simp only: s1)
    moreover have "contents rb ! nat (?fill - 1 - int q) = buf rb ! nat (slot rb (int (nat (?fill - 1 - int q))))"
      using that by (intro contents_nth) auto
    moreover have "int (nat (?fill - 1 - int q)) = ?fill - 1 - int q" using that by simp
    ultimately show ?thesis by simp
  qed
  have len': "length b' = nat m" using b2 by simp
  show ?thesis
    by (rule exI[of _ b']) (use res len' nth in blast)
qed

lemma Resize_positive:
  assumes inv: "rb_inv rb" and m: "0 < m"
  shows "\<exists>rb'. Resize rb m = Inr (rb', drop (nat m) (contents rb)) \<and>
           rb_inv rb' \<and> contents rb' = take (nat m) (contents rb) \<and>
           int (length (buf rb')) = m \<and> len rb' = min (len rb) m \<and>
           cur rb' = min (len rb) m mod m"
proof (cases "len rb = 0")
  case True
  let ?rb = "rb\<lparr>buf := replicate (nat m) 0, cur := 0, len := 0\<rparr>"
  have "Resize rb m = Inr (?rb, drop (nat m) (contents rb))"
    using Resize_empty[OF inv m True] True by (simp add: contents_def)
  moreover have "rb_inv ?rb" using m by (simp add: rb_inv_def)
  moreover have "contents ?rb = take (nat m) (contents rb)" using True by (simp add: contents_def)
  moreover have "int (length (buf ?rb)) = m" using m by simp
  moreover have "len ?rb = min (len rb) m" using True m by simp
  moreover have "cur ?rb = min (len rb) m mod m" using True m by simp
  ultimately show ?thesis by blast
next
  case False
  then have l: "0 < len rb" using inv by (simp add: rb_inv_def)
  let ?fill = "min (len rb) m"
  obtain b' where r: "Resize rb m = Inr (rb\<lparr>buf := b', cur := (if ?fill = m then 0 else ?fill), len := ?fill\<rparr>,
        drop (nat m) (contents rb))"
    and lb: "length b' = nat m"
    and nth: "\<forall>q. int q < ?fill \<longrightarrow> b' ! q = contents rb ! nat (?fill - 1 - int q)"
    using Resize_nonempty[OF inv m l] by (elim exE conjE)
  let ?rb = "rb\<lparr>buf := b', cur := (if ?fill = m then 0 else ?fill), len := ?fill\<rparr>"
  have f: "0 < ?fill" "?fill \<le> m" using l m by simp_all
  have i: "rb_inv ?rb" using f lb m by (auto simp: rb_inv_def)
  have cm: "cur ?rb = ?fill mod m"
    using f by (cases "?fill = m") (simp_all add: mod_pos_pos_trivial)
  have ct: "contents ?rb = take (nat m) (contents rb)"
  proof (rule nth_equalityI)
    show "length (contents ?rb) = length (take (nat m) (contents rb))"
      using l m by (simp add: length_contents min_def)
    fix j assume "j < length (contents ?rb)"
    then have jn: "j < nat ?fill" by (simp add: length_contents)
    then have j: "int j < ?fill" by linarith
    have jl: "j < nat (len ?rb)" using jn by simp
    have "slot ?rb (int j) = (?fill mod m - 1 - int j) mod m"
      using cm lb m by (simp add: slot_def)
    also have "\<dots> = (?fill mod m - (1 + int j)) mod m" by (simp add: algebra_simps)
    also have "\<dots> = (?fill - (1 + int j)) mod m" by (simp only: mod_diff_left_eq)
    also have "\<dots> = ?fill - 1 - int j" using j f by (simp add: mod_pos_pos_trivial)
    finally have sl: "slot ?rb (int j) = ?fill - 1 - int j" .
    have q: "int (nat (?fill - 1 - int j)) < ?fill" using j by linarith
    have "contents ?rb ! j = b' ! nat (?fill - 1 - int j)"
      using contents_nth[OF jl] sl by simp
    also have "\<dots> = contents rb ! nat (?fill - 1 - int (nat (?fill - 1 - int j)))"
      using nth q by blast
    also have "nat (?fill - 1 - int (nat (?fill - 1 - int j))) = j" using j by linarith
    finally show "contents ?rb ! j = take (nat m) (contents rb) ! j" using jn by simp
  qed
  have "int (length (buf ?rb)) = m" using lb m by simp
  moreover have "len ?rb = min (len rb) m" by simp
  ultimately show ?thesis using r i ct cm by blast
qed

lemma Resize_nonpositive: "m \<le> 0 \<Longrightarrow> Resize rb m = Inr (rb, [])"
  by (simp add: Resize_def)

lemma NewRingBuffer_inv: "NewRingBuffer n = Inr rb \<Longrightarrow> rb_inv rb \<and> contents rb = [] \<and> int (length (buf rb)) = n"
  by (auto simp: NewRingBuffer_def make_slice_def rb_inv_def contents_def split: if_splits)

lemma Add_zero_cap: "length (buf rb) = 0 \<Longrightarrow> Add rb v = Inr (rb, 0, False)"
  by (simp add: Add_def)

lemma Add_inv:
  assumes "rb_inv rb" "Add rb v = Inr (rb', d, ok)"
  shows "rb_inv rb'"
proof (cases "length (buf rb) = 0")
  case True
  then show ?thesis using assms Add_zero_cap[OF True, of v] by simp
next
  case False
  then have "0 < length (buf rb)" by simp
  then show ?thesis using assms Add_result[of rb v] Add_next_inv[of rb v] by simp
qed

lemma Resize_inv:
  assumes "rb_inv rb" "Resize rb m = Inr (rb', ds)"
  shows "rb_inv rb'"
proof (cases "0 < m")
  case True
  then show ?thesis using Resize_positive[OF assms(1) True] assms(2) by auto
next
  case False
  then show ?thesis using assms by (simp add: Resize_def)
qed

lemma reachable_inv: "reachable rb \<Longrightarrow> rb_inv rb"
proof (induction rule: reachable.induct)
  case (new n rb)
  then show ?case using NewRingBuffer_inv by blast
next
  case (add rb v rb' d ok)
  then show ?case using Add_inv by blast
next
  case (resize rb n rb' ds)
  then show ?case using Resize_inv by blast
qed

lemma take_append_take: "take n (xs @ take n ys) = take n (xs @ ys)"
  by (simp add: min_def)

lemma take_length_take: "take (length (take n ys)) ys = take n ys"
  by (simp add: min_def)

lemma Adds_contents:
  "rb_inv rb \<Longrightarrow> 0 < length (buf rb) \<Longrightarrow>
   \<exists>rb'. Adds rb vs = Inr rb' \<and> rb_inv rb' \<and> length (buf rb') = length (buf rb) \<and>
     contents rb' = take (length (buf rb)) (rev vs @ contents rb)"
proof (induction vs arbitrary: rb)
  case Nil
  have "len rb \<le> int (length (buf rb))" using Nil by (simp add: rb_inv_def)
  then have "length (contents rb) \<le> length (buf rb)"
    unfolding length_contents by linarith
  then show ?case using Nil by simp
next
  case (Cons v vs)
  let ?rb = "Add_next rb v"
  have a: "Add rb v = Inr (?rb, if len rb = int (length (buf rb)) then buf rb ! nat (cur rb) else 0,
      len rb = int (length (buf rb)))"
    using Cons.prems by (rule Add_result)
  have i: "rb_inv ?rb" using Cons.prems by (rule Add_next_inv)
  have l: "length (buf ?rb) = length (buf rb)" by (simp add: Add_next_sel)
  have c: "contents ?rb = take (length (buf rb)) (v # contents rb)"
    using Cons.prems by (rule contents_Add_next)
  obtain rb' where r: "Adds ?rb vs = Inr rb'" "rb_inv rb'" "length (buf rb') = length (buf ?rb)"
      "contents rb' = take (length (buf ?rb)) (rev vs @ contents ?rb)"
    using Cons.IH[OF i] Cons.prems(2) l by auto
  have "contents rb' = take (length (buf rb)) (rev (v # vs) @ contents rb)"
    using r(4) by (simp only: l c take_append_take) simp
  then show ?case using a r l by simp
qed

lemma Adds_reachable: "reachable rb \<Longrightarrow> Adds rb vs = Inr rb' \<Longrightarrow> reachable rb'"
proof (induction vs arbitrary: rb)
  case Nil
  then show ?case by simp
next
  case (Cons v vs)
  then show ?case
    by (auto split: sum.splits intro: reachable.add)
qed

section \<open>Inserting and traversing\<close>

text \<open>
  Claim C1. For every capacity \<open>C > 0\<close> and every sequence \<open>vs\<close> of \<open>N\<close> values
  inserted with \<open>Add\<close>, in order, into the buffer built by \<open>NewRingBuffer(C)\<close>:
  the constructor and every \<open>Add\<close> return, and a following \<open>Walk\<close> yields exactly
  \<open>min(N, C)\<close> values, which are the last \<open>min(N, C)\<close> inserted ones, newest
  first (a prefix of the reversed input).
\<close>

theorem C1_walk_after_adds:
  assumes "0 < C"
  shows "\<exists>rb0 rb xs. NewRingBuffer C = Inr rb0 \<and> Adds rb0 vs = Inr rb \<and> walk_all rb = Inr xs \<and>
           int (length xs) = min (int (length vs)) C \<and> xs = take (length xs) (rev vs)"
proof -
  obtain rb0 :: "'a RingBuffer" where n: "NewRingBuffer C = Inr rb0"
    using assms by (simp add: NewRingBuffer_def make_slice_def)
  have i0: "rb_inv rb0" "contents rb0 = []" "int (length (buf rb0)) = C"
    using NewRingBuffer_inv[OF n] by simp_all
  have p: "0 < length (buf rb0)" using i0(3) assms by auto
  obtain rb where r: "Adds rb0 vs = Inr rb" "rb_inv rb"
      "contents rb = take (length (buf rb0)) (rev vs @ contents rb0)"
    using Adds_contents[OF i0(1) p, of vs] by auto
  have "nat C = length (buf rb0)" using i0(3) by linarith
  then have c: "contents rb = take (nat C) (rev vs)"
    using r(3) i0(2) by simp
  have w: "walk_all rb = Inr (contents rb)" using r(2) by (rule walk_all_contents)
  have "length (contents rb) = min (length vs) (nat C)"
    unfolding c by simp
  then have l: "int (length (contents rb)) = min (int (length vs)) C"
    using assms by linarith
  have t: "contents rb = take (length (contents rb)) (rev vs)"
    unfolding c by (simp only: take_length_take)
  show ?thesis using n r(1) w l t by blast
qed

text \<open>Capacity 3 and the inserts 1, 2, 3, 4, 5: the traversal is 5, 4, 3.\<close>

theorem C1_walk_after_adds_witness:
  "(0::int) < 3 \<and> (\<exists>rb0 rb. NewRingBuffer 3 = Inr rb0 \<and> Adds rb0 [1, 2, 3, 4, 5 :: int] = Inr rb \<and>
       walk_all rb = Inr [5, 4, 3])"
proof -
  have "(0::int) < 3" by simp
  from C1_walk_after_adds[OF this, of "[1, 2, 3, 4, 5 :: int]"]
  obtain rb0 rb xs where h: "NewRingBuffer 3 = Inr rb0" "Adds rb0 [1, 2, 3, 4, 5 :: int] = Inr rb"
      "walk_all rb = Inr xs" "int (length xs) = min (int (length [1, 2, 3, 4, 5 :: int])) 3"
      "xs = take (length xs) (rev [1, 2, 3, 4, 5 :: int])"
    by blast
  have "length xs = 3" using h(4) by simp
  then have "xs = [5, 4, 3]" using h(5) by simp
  then show ?thesis using h by auto
qed

section \<open>Eviction and overview\<close>

lemma contents_hd:
  assumes "0 < len rb"
  shows "hd (contents rb) = buf rb ! nat (slot rb 0)"
proof -
  have "0 < nat (len rb)" using assms by simp
  then have "contents rb ! 0 = buf rb ! nat (slot rb (int 0))" by (rule contents_nth)
  moreover have "contents rb \<noteq> []" using assms by (simp add: contents_def)
  ultimately show ?thesis by (simp add: hd_conv_nth)
qed

lemma contents_last_slot:
  assumes "0 < len rb"
  shows "last (contents rb) = buf rb ! nat (slot rb (len rb - 1))"
proof -
  have ne: "contents rb \<noteq> []" using assms by (simp add: contents_def)
  have l: "nat (len rb) - 1 < nat (len rb)" using assms by simp
  have "last (contents rb) = contents rb ! (nat (len rb) - 1)"
    by (simp add: last_conv_nth[OF ne] length_contents)
  also have "\<dots> = buf rb ! nat (slot rb (int (nat (len rb) - 1)))" using l by (rule contents_nth)
  also have "int (nat (len rb) - 1) = len rb - 1" using assms by linarith
  finally show ?thesis .
qed

text \<open>
  Claim C3. For every buffer a client can hold whose capacity is positive, \<open>Add\<close>
  returns. When the buffer is full (\<open>len == len(buf)\<close>) it returns the value that
  \<open>Walk\<close> yielded last before the insert, the oldest one, with the flag \<open>true\<close>;
  when \<open>len < len(buf)\<close> it returns the zero value with the flag \<open>false\<close>.
\<close>

theorem C3_add_reports_evicted:
  assumes "reachable rb" and "0 < length (buf rb)"
  shows "\<exists>rb' d ok xs. Add rb v = Inr (rb', d, ok) \<and> walk_all rb = Inr xs \<and>
           (len rb = int (length (buf rb)) \<longrightarrow> ok \<and> xs \<noteq> [] \<and> d = last xs) \<and>
           (len rb < int (length (buf rb)) \<longrightarrow> \<not> ok \<and> d = 0)"
proof -
  have inv: "rb_inv rb" using assms(1) by (rule reachable_inv)
  have a: "Add rb v = Inr (Add_next rb v,
      if len rb = int (length (buf rb)) then buf rb ! nat (cur rb) else 0,
      len rb = int (length (buf rb)))"
    using inv assms(2) by (rule Add_result)
  have w: "walk_all rb = Inr (contents rb)" using inv by (rule walk_all_contents)
  have f: "contents rb \<noteq> [] \<and> buf rb ! nat (cur rb) = last (contents rb)"
    if "len rb = int (length (buf rb))"
    using contents_last[OF inv assms(2) that] that assms(2) by (simp add: contents_def)
  show ?thesis using a w f by auto
qed

text \<open>The full buffer holding 3, 2, 1 (newest first): \<open>Add(4)\<close> reports 1 and \<open>true\<close>.\<close>

theorem C3_add_reports_evicted_witness:
  "reachable \<lparr>buf = [1, 2, 3 :: int], cur = 0, len = 3\<rparr> \<and>
   walk_all \<lparr>buf = [1, 2, 3 :: int], cur = 0, len = 3\<rparr> = Inr [3, 2, 1] \<and>
   (\<exists>rb'. Add \<lparr>buf = [1, 2, 3 :: int], cur = 0, len = 3\<rparr> 4 = Inr (rb', 1, True))"
proof -
  let ?rb = "\<lparr>buf = [1, 2, 3 :: int], cur = 0, len = 3\<rparr>"
  have n: "NewRingBuffer 3 = Inr \<lparr>buf = [0, 0, 0 :: int], cur = 0, len = 0\<rparr>"
    by (simp add: NewRingBuffer_def make_slice_def numeral_3_eq_3)
  have a: "Adds \<lparr>buf = [0, 0, 0 :: int], cur = 0, len = 0\<rparr> [1, 2, 3] = Inr ?rb"
    by (simp add: Add_def store_def index_def)
  have r: "reachable ?rb" using Adds_reachable[OF reachable.new[OF n] a] .
  have p: "0 < length (buf ?rb)" by simp
  obtain rb' d ok xs where h: "Add ?rb 4 = Inr (rb', d, ok)" "walk_all ?rb = Inr xs"
      "len ?rb = int (length (buf ?rb)) \<longrightarrow> ok \<and> xs \<noteq> [] \<and> d = last xs"
    using C3_add_reports_evicted[OF r p, of 4] by blast
  have w: "walk_all ?rb = Inr [3, 2, 1]"
    using walk_all_contents[OF reachable_inv[OF r]]
    by (simp add: contents_def slot_def upt_rec)
  then have "xs = [3, 2, 1]" using h(2) by simp
  then have "ok \<and> d = 1" using h(3) by simp
  then show ?thesis using r w h(1) by auto
qed

text \<open>
  Claim C6. For every buffer a client can hold, \<open>Overview\<close> and a full \<open>Walk\<close>
  both return; the count of \<open>Overview\<close> is the number of values \<open>Walk\<close> yields; when
  there are any, newest and oldest are the first and the last value yielded; when there are
  none, \<open>Overview\<close> returns zero values and the count 0.
\<close>

theorem C6_overview_agrees_with_walk:
  assumes "reachable rb"
  shows "\<exists>xs newest oldest count. walk_all rb = Inr xs \<and> Overview rb = Inr (newest, oldest, count) \<and>
           count = int (length xs) \<and>
           (xs \<noteq> [] \<longrightarrow> newest = hd xs \<and> oldest = last xs) \<and>
           (xs = [] \<longrightarrow> newest = 0 \<and> oldest = 0 \<and> count = 0)"
proof -
  have inv: "rb_inv rb" using assms by (rule reachable_inv)
  have w: "walk_all rb = Inr (contents rb)" using inv by (rule walk_all_contents)
  have l: "int (length (contents rb)) = len rb" using inv by (simp add: length_contents rb_inv_def)
  show ?thesis
  proof (cases "len rb = 0")
    case True
    then have "Overview rb = Inr (0, 0, 0)" by (simp add: Overview_def)
    moreover have "contents rb = []" using True by (simp add: contents_def)
    ultimately show ?thesis using w by simp
  next
    case False
    let ?c = "int (length (buf rb))"
    have p: "0 < len rb" using False inv by (simp add: rb_inv_def)
    have c: "0 \<le> cur rb" "cur rb < ?c" "len rb \<le> ?c" "0 < ?c" using inv p by (auto simp: rb_inv_def)
    have "(if cur rb - 1 < 0 then cur rb - 1 + ?c else cur rb - 1) = (cur rb - 1) mod ?c"
      using c by (intro wrap_mod) auto
    also have "\<dots> = slot rb 0" by (simp add: slot_def)
    finally have h: "(if cur rb - 1 < 0 then cur rb - 1 + ?c else cur rb - 1) = slot rb 0" .
    have s0: "0 \<le> slot rb 0" "slot rb 0 < ?c" using c(4) by (simp_all add: slot_def)
    have "(if slot rb 0 - (len rb - 1) < 0 then slot rb 0 - (len rb - 1) + ?c else slot rb 0 - (len rb - 1))
        = (slot rb 0 - (len rb - 1)) mod ?c"
      using s0 c p by (intro wrap_mod) auto
    also have "\<dots> = (cur rb - 1 - 0 - (len rb - 1)) mod ?c"
      unfolding slot_def by (simp only: mod_diff_left_eq)
    also have "\<dots> = slot rb (len rb - 1)" by (simp add: slot_def)
    finally have t: "(if slot rb 0 - (len rb - 1) < 0 then slot rb 0 - (len rb - 1) + ?c
        else slot rb 0 - (len rb - 1)) = slot rb (len rb - 1)" .
    have s1: "0 \<le> slot rb (len rb - 1)" "slot rb (len rb - 1) < ?c" using c(4) by (simp_all add: slot_def)
    have o: "Overview rb = Inr (buf rb ! nat (slot rb 0), buf rb ! nat (slot rb (len rb - 1)), len rb)"
      unfolding Overview_def Let_def h t using False s0 s1 by (simp add: index_def)
    have ne: "contents rb \<noteq> []" using p by (simp add: contents_def)
    show ?thesis using w o l ne contents_hd[OF p] contents_last_slot[OF p] by simp
  qed
qed

text \<open>Capacity 3 after the inserts 1, 2, 3, 4: \<open>Walk\<close> yields 4, 3, 2 and \<open>Overview\<close> returns (4, 2, 3).\<close>

theorem C6_overview_agrees_with_walk_witness:
  "reachable \<lparr>buf = [4, 2, 3 :: int], cur = 1, len = 3\<rparr> \<and>
   walk_all \<lparr>buf = [4, 2, 3 :: int], cur = 1, len = 3\<rparr> = Inr [4, 3, 2] \<and>
   Overview \<lparr>buf = [4, 2, 3 :: int], cur = 1, len = 3\<rparr> = Inr (4, 2, 3)"
proof -
  let ?rb = "\<lparr>buf = [4, 2, 3 :: int], cur = 1, len = 3\<rparr>"
  have n: "NewRingBuffer 3 = Inr \<lparr>buf = [0, 0, 0 :: int], cur = 0, len = 0\<rparr>"
    by (simp add: NewRingBuffer_def make_slice_def numeral_3_eq_3)
  have a: "Adds \<lparr>buf = [0, 0, 0 :: int], cur = 0, len = 0\<rparr> [1, 2, 3, 4] = Inr ?rb"
    by (simp add: Add_def store_def index_def)
  have r: "reachable ?rb" using Adds_reachable[OF reachable.new[OF n] a] .
  obtain xs newest oldest count where h: "walk_all ?rb = Inr xs"
      "Overview ?rb = Inr (newest, oldest, count)" "count = int (length xs)"
      "xs \<noteq> [] \<longrightarrow> newest = hd xs \<and> oldest = last xs"
    using C6_overview_agrees_with_walk[OF r] by blast
  have w: "walk_all ?rb = Inr [4, 3, 2]"
    using walk_all_contents[OF reachable_inv[OF r]]
    by (simp add: contents_def slot_def upt_rec)
  then have "xs = [4, 3, 2]" using h(1) by simp
  then have "newest = 4 \<and> oldest = 2 \<and> count = 3" using h(3,4) by simp
  then show ?thesis using r w h(2) by simp
qed

section \<open>The buffer of capacity 0\<close>

lemma Walk_loop_empty: "len rb \<le> i \<Longrightarrow> Walk_loop rb fn i st = Inr (None, st)"
  by (subst Walk_loop.simps) simp

text \<open>
  Claim C8. The buffer built by \<open>NewRingBuffer(0)\<close> has count 0; every \<open>Add\<close> on it
  returns the zero value and \<open>false\<close> and leaves it as it is, so it is unchanged and
  its count is 0 after every sequence of \<open>Add\<close> calls; \<open>Overview\<close> returns zero
  values and the count 0, and \<open>Walk\<close> yields nothing.
\<close>

theorem C8_zero_capacity:
  "\<exists>rb0 :: ('a::zero) RingBuffer. NewRingBuffer 0 = Inr rb0 \<and> len rb0 = 0 \<and> buf rb0 = [] \<and>
     (\<forall>v. Add rb0 v = Inr (rb0, 0, False)) \<and>
     (\<forall>vs. Adds rb0 vs = Inr rb0) \<and>
     Overview rb0 = Inr (0, 0, 0) \<and> walk_all rb0 = Inr []"
proof -
  let ?rb = "\<lparr>buf = [], cur = 0, len = 0\<rparr> :: 'a RingBuffer"
  have n: "NewRingBuffer 0 = Inr ?rb" by (simp add: NewRingBuffer_def make_slice_def)
  have a: "Add ?rb v = Inr (?rb, 0, False)" for v by (simp add: Add_def)
  have as: "Adds ?rb vs = Inr ?rb" for vs by (induction vs) (simp_all add: a)
  have o: "Overview ?rb = Inr (0, 0, 0)" by (simp add: Overview_def)
  have w: "walk_all ?rb = Inr []" by (simp add: walk_all_def Walk_def Walk_loop_empty)
  show ?thesis using n a as o w by (intro exI[of _ ?rb]) simp
qed

text \<open>As in the test: after \<open>Add(1)\<close> and \<open>Add(2)\<close> on a buffer of capacity 0 the overview is still empty.\<close>

theorem C8_zero_capacity_witness:
  "\<exists>rb0. NewRingBuffer 0 = Inr rb0 \<and> Adds rb0 [1, 2 :: int] = Inr rb0 \<and> Overview rb0 = Inr (0, 0, 0)"
  using C8_zero_capacity[where 'a = int] by blast

section \<open>Degenerate sizes\<close>

text \<open>
  Claim C5. For every \<open>x \<le> 0\<close>, \<open>RingBuffer.Resize(x)\<close> returns, with no dropped
  values and the buffer (slice, cursor and count) as it was; \<open>RingBuffers.Resize(x)\<close>
  returns the nil map and leaves the default size, the map of buffers and every buffer as
  they were.
\<close>

theorem C5_resize_nonpositive_noop:
  assumes "x \<le> 0"
  shows "Resize rb x = Inr (rb, []) \<and> RingBuffers_Resize s x = Inr (s, None)"
  using assms by (simp add: Resize_def RingBuffers_Resize_def)

text \<open>The size \<open>-2\<close> on a full buffer and on a set holding it.\<close>

theorem C5_resize_nonpositive_noop_witness:
  "(-2::int) \<le> 0 \<and>
   Resize \<lparr>buf = [1, 2, 3 :: int], cur = 0, len = 3\<rparr> (-2) = Inr (\<lparr>buf = [1, 2, 3], cur = 0, len = 3\<rparr>, []) \<and>
   RingBuffers_Resize \<lparr>rbs = \<lparr>sz = 3, bufs = [(''foo'', 0)]\<rparr>,
       heap = [\<lparr>buf = [1, 2, 3 :: int], cur = 0, len = 3\<rparr>]\<rparr> (-2)
     = Inr (\<lparr>rbs = \<lparr>sz = 3, bufs = [(''foo'', 0)]\<rparr>,
              heap = [\<lparr>buf = [1, 2, 3], cur = 0, len = 3\<rparr>]\<rparr>, None)"
proof -
  have "(-2::int) \<le> 0" by simp
  from C5_resize_nonpositive_noop[OF this] show ?thesis by simp
qed

section \<open>The cursor invariant\<close>

text \<open>
  Claim C9. In every buffer built by \<open>NewRingBuffer\<close> and changed by \<open>Add\<close> and
  \<open>Resize\<close>: when the write cursor is 0 and the capacity is positive, the count is 0
  or the capacity. Hence, when the buffer is not empty, the read cursor that \<open>Resize\<close>
  computes first, \<open>cur - 1\<close> plus \<open>len\<close> when negative, is the slot before the write
  cursor modulo the capacity, although it adds the count and not the capacity.
\<close>

theorem C9_cursor_zero_invariant:
  assumes "reachable rb"
  shows "(cur rb = 0 \<and> 0 < length (buf rb) \<longrightarrow> len rb = 0 \<or> len rb = int (length (buf rb))) \<and>
         (0 < len rb \<longrightarrow>
            (if cur rb - 1 < 0 then cur rb - 1 + len rb else cur rb - 1)
              = (cur rb - 1) mod int (length (buf rb)))"
proof -
  have inv: "rb_inv rb" using assms by (rule reachable_inv)
  have a: "cur rb = 0 \<and> 0 < length (buf rb) \<longrightarrow> len rb = 0 \<or> len rb = int (length (buf rb))"
    using inv by (auto simp: rb_inv_def)
  have b: "(if cur rb - 1 < 0 then cur rb - 1 + len rb else cur rb - 1)
      = (cur rb - 1) mod int (length (buf rb))" if p: "0 < len rb"
  proof (cases "cur rb = 0")
    case True
    then have "len rb = int (length (buf rb))" using inv p by (auto simp: rb_inv_def)
    then show ?thesis using True p by (simp add: zmod_minus1)
  next
    case False
    then have "0 \<le> cur rb - 1" "cur rb - 1 < int (length (buf rb))"
      using inv p by (auto simp: rb_inv_def)
    then show ?thesis by (simp add: mod_pos_pos_trivial)
  qed
  show ?thesis using a b by blast
qed

text \<open>The full buffer of capacity 3 with the write cursor at 0: the read cursor of \<open>Resize\<close> starts at 2.\<close>

theorem C9_cursor_zero_invariant_witness:
  "reachable \<lparr>buf = [1, 2, 3 :: int], cur = 0, len = 3\<rparr> \<and>
   cur \<lparr>buf = [1, 2, 3 :: int], cur = 0, len = 3\<rparr> = 0 \<and>
   len \<lparr>buf = [1, 2, 3 :: int], cur = 0, len = 3\<rparr> = int (length (buf \<lparr>buf = [1, 2, 3 :: int], cur = 0, len = 3\<rparr>)) \<and>
   (if cur \<lparr>buf = [1, 2, 3 :: int], cur = 0, len = 3\<rparr> - 1 < 0
    then cur \<lparr>buf = [1, 2, 3 :: int], cur = 0, len = 3\<rparr> - 1 + len \<lparr>buf = [1, 2, 3 :: int], cur = 0, len = 3\<rparr>
    else cur \<lparr>buf = [1, 2, 3 :: int], cur = 0, len = 3\<rparr> - 1) = 2"
proof -
  let ?rb = "\<lparr>buf = [1, 2, 3 :: int], cur = 0, len = 3\<rparr>"
  have n: "NewRingBuffer 3 = Inr \<lparr>buf = [0, 0, 0 :: int], cur = 0, len = 0\<rparr>"
    by (simp add: NewRingBuffer_def make_slice_def numeral_3_eq_3)
  have a: "Adds \<lparr>buf = [0, 0, 0 :: int], cur = 0, len = 0\<rparr> [1, 2, 3] = Inr ?rb"
    by (simp add: Add_def store_def index_def)
  have r: "reachable ?rb" using Adds_reachable[OF reachable.new[OF n] a] .
  from C9_cursor_zero_invariant[OF r] show ?thesis using r by simp
qed

section \<open>Resizing\<close>

text \<open>
  Claim C2. For every buffer a client can hold, with \<open>vs\<close> the values \<open>Walk\<close>
  yields (newest first) and \<open>k\<close> their number: \<open>Resize(m)\<close> with \<open>m \<ge> k\<close> returns
  no dropped values and \<open>Walk\<close> yields \<open>vs\<close> afterwards; \<open>Resize(m)\<close> with
  \<open>0 < m < k\<close> returns the values of \<open>vs\<close> after the first \<open>m\<close>, in the order of
  \<open>vs\<close>, and \<open>Walk\<close> yields the first \<open>m\<close> values of \<open>vs\<close> afterwards. In
  both cases the count is \<open>min(k, m)\<close> and the write cursor is \<open>min(k, m) mod m\<close>
  afterwards (for \<open>m = 0\<close>, which needs \<open>k = 0\<close>, the cursor is 0).
\<close>

theorem C2_resize_preserves_order:
  assumes "reachable rb" and "walk_all rb = Inr vs"
  shows "(int (length vs) \<le> m \<longrightarrow>
            (\<exists>rb'. Resize rb m = Inr (rb', []) \<and> walk_all rb' = Inr vs \<and>
               len rb' = min (int (length vs)) m \<and> cur rb' = min (int (length vs)) m mod m)) \<and>
         (0 < m \<and> m < int (length vs) \<longrightarrow>
            (\<exists>rb'. Resize rb m = Inr (rb', drop (nat m) vs) \<and> walk_all rb' = Inr (take (nat m) vs) \<and>
               len rb' = min (int (length vs)) m \<and> cur rb' = min (int (length vs)) m mod m))"
proof -
  have inv: "rb_inv rb" using assms(1) by (rule reachable_inv)
  have vs: "vs = contents rb" using walk_all_contents[OF inv] assms(2) by simp
  have k: "int (length vs) = len rb" using inv by (simp add: vs length_contents rb_inv_def)
  have pos: "\<exists>rb'. Resize rb m = Inr (rb', drop (nat m) vs) \<and> walk_all rb' = Inr (take (nat m) vs) \<and>
      len rb' = min (int (length vs)) m \<and> cur rb' = min (int (length vs)) m mod m" if m: "0 < m"
  proof -
    obtain rb' where r: "Resize rb m = Inr (rb', drop (nat m) (contents rb))" "rb_inv rb'"
        "contents rb' = take (nat m) (contents rb)" "len rb' = min (len rb) m"
        "cur rb' = min (len rb) m mod m"
      using Resize_positive[OF inv m] by blast
    have "walk_all rb' = Inr (take (nat m) vs)"
      using walk_all_contents[OF r(2)] r(3) vs by simp
    then show ?thesis using r(1,4,5) vs k by auto
  qed
  have grow: "\<exists>rb'. Resize rb m = Inr (rb', []) \<and> walk_all rb' = Inr vs \<and>
      len rb' = min (int (length vs)) m \<and> cur rb' = min (int (length vs)) m mod m"
    if le: "int (length vs) \<le> m"
  proof (cases "0 < m")
    case True
    have "length vs \<le> nat m" using le by linarith
    then have "drop (nat m) vs = []" "take (nat m) vs = vs" by simp_all
    then show ?thesis using pos[OF True] by simp
  next
    case False
    then have z: "m = 0" "len rb = 0" using le k by simp_all
    then have "cur rb = 0" using inv by (auto simp: rb_inv_def)
    then show ?thesis using z assms(2) k by (simp add: Resize_def)
  qed
  show ?thesis using pos grow by blast
qed

text \<open>
  As in the test: capacity 3 holding 3, 2, 1. \<open>Resize(2)\<close> drops 1 and keeps 3, 2 with
  the cursor wrapped to 0; \<open>Resize(4)\<close> drops nothing and keeps 3, 2, 1 with the cursor at 3.
\<close>

theorem C2_resize_preserves_order_witness:
  "reachable \<lparr>buf = [1, 2, 3 :: int], cur = 0, len = 3\<rparr> \<and>
   walk_all \<lparr>buf = [1, 2, 3 :: int], cur = 0, len = 3\<rparr> = Inr [3, 2, 1] \<and>
   (\<exists>rb'. Resize \<lparr>buf = [1, 2, 3 :: int], cur = 0, len = 3\<rparr> 2 = Inr (rb', [1]) \<and>
          walk_all rb' = Inr [3, 2] \<and> len rb' = 2 \<and> cur rb' = 0) \<and>
   (\<exists>rb'. Resize \<lparr>buf = [1, 2, 3 :: int], cur = 0, len = 3\<rparr> 4 = Inr (rb', []) \<and>
          walk_all rb' = Inr [3, 2, 1] \<and> len rb' = 3 \<and> cur rb' = 3)"
proof -
  let ?rb = "\<lparr>buf = [1, 2, 3 :: int], cur = 0, len = 3\<rparr>"
  have n: "NewRingBuffer 3 = Inr \<lparr>buf = [0, 0, 0 :: int], cur = 0, len = 0\<rparr>"
    by (simp add: NewRingBuffer_def make_slice_def numeral_3_eq_3)
  have a: "Adds \<lparr>buf = [0, 0, 0 :: int], cur = 0, len = 0\<rparr> [1, 2, 3] = Inr ?rb"
    by (simp add: Add_def store_def index_def)
  have r: "reachable ?rb" using Adds_reachable[OF reachable.new[OF n] a] .
  have w: "walk_all ?rb = Inr [3, 2, 1]"
    using walk_all_contents[OF reachable_inv[OF r]]
    by (simp add: contents_def slot_def upt_rec)
  have s: "\<exists>rb'. Resize ?rb 2 = Inr (rb', [1]) \<and> walk_all rb' = Inr [3, 2] \<and> len rb' = 2 \<and> cur rb' = 0"
    using C2_resize_preserves_order[OF r w, of 2] by simp
  have g: "\<exists>rb'. Resize ?rb 4 = Inr (rb', []) \<and> walk_all rb' = Inr [3, 2, 1] \<and> len rb' = 3 \<and> cur rb' = 3"
    using C2_resize_preserves_order[OF r w, of 4] by simp
  show ?thesis using r w s g by blast
qed

section \<open>Copy and Take\<close>

lemma Walk_loop_Copy_fn:
  assumes inv: "rb_inv rb"
  shows "k = nat (len rb - i) \<Longrightarrow> 0 \<le> i \<Longrightarrow> i \<le> len rb \<Longrightarrow> i \<le> int (length dst) \<Longrightarrow>
    \<exists>e dst'. Walk_loop rb Copy_fn i (dst, i) = Inr (e, dst', min (len rb) (int (length dst))) \<and>
       length dst' = length dst \<and>
       (\<forall>q. i \<le> int q \<and> int q < min (len rb) (int (length dst)) \<longrightarrow> dst' ! q = contents rb ! q) \<and>
       (\<forall>q. int q < i \<longrightarrow> dst' ! q = dst ! q)"
proof (induction k arbitrary: i dst)
  case 0
  then have "i = len rb" by simp
  then show ?case using 0 by (subst Walk_loop.simps) (auto simp: min_def)
next
  case (Suc k)
  then have lt: "i < len rb" and i0: "0 \<le> i" by auto
  have cap: "0 < int (length (buf rb))" using inv lt i0 by (auto simp: rb_inv_def)
  have rd: "index (buf rb) (slot rb i) = Inr (buf rb ! nat (slot rb i))"
    using slot_range[OF cap, of i] by (intro index_in) auto
  have ci: "contents rb ! nat i = buf rb ! nat (slot rb i)"
    using contents_nth[of "nat i" rb] lt i0 by simp
  show ?case
  proof (cases "i \<ge> int (length dst)")
    case True
    then have e: "i = int (length dst)" using Suc.prems by simp
    have "Walk_loop rb Copy_fn i (dst, i) = Inr (Some EOF, dst, i)"
      by (subst Walk_loop.simps)
         (simp only: lt if_True Let_def Walk_index[OF inv i0 lt] rd sum.case, simp add: Copy_fn_def e)
    moreover have "min (len rb) (int (length dst)) = i" using e lt by simp
    ultimately show ?thesis by auto
  next
    case False
    let ?v = "buf rb ! nat (slot rb i)"
    let ?dst = "dst[nat i := ?v]"
    have f: "Copy_fn ?v (dst, i) = Inr (None, ?dst, i + 1)"
      using False i0 by (simp add: Copy_fn_def store_def)
    have step: "Walk_loop rb Copy_fn i (dst, i) = Walk_loop rb Copy_fn (i + 1) (?dst, i + 1)"
      by (subst Walk_loop.simps)
         (simp only: lt if_True Let_def Walk_index[OF inv i0 lt] rd f sum.case prod.case option.case)
    have "\<exists>e dst'. Walk_loop rb Copy_fn (i + 1) (?dst, i + 1) = Inr (e, dst', min (len rb) (int (length ?dst))) \<and>
       length dst' = length ?dst \<and>
       (\<forall>q. i + 1 \<le> int q \<and> int q < min (len rb) (int (length ?dst)) \<longrightarrow> dst' ! q = contents rb ! q) \<and>
       (\<forall>q. int q < i + 1 \<longrightarrow> dst' ! q = ?dst ! q)"
      using Suc.prems lt i0 False by (intro Suc.IH) auto
    then obtain e dst' where r: "Walk_loop rb Copy_fn (i + 1) (?dst, i + 1) = Inr (e, dst', min (len rb) (int (length dst)))"
        "length dst' = length dst"
        "\<forall>q. i + 1 \<le> int q \<and> int q < min (len rb) (int (length dst)) \<longrightarrow> dst' ! q = contents rb ! q"
        "\<forall>q. int q < i + 1 \<longrightarrow> dst' ! q = ?dst ! q"
      by auto
    have hi: "dst' ! q = contents rb ! q" if "i \<le> int q" "int q < min (len rb) (int (length dst))" for q
    proof (cases "int q = i")
      case True
      then have q: "nat i = q" "q < length dst" using False by auto
      have "dst' ! q = ?dst ! q" using r(4) True by simp
      also have "\<dots> = ?v" using q by simp
      finally show ?thesis using ci q by simp
    next
      case False
      then have "i + 1 \<le> int q" using that by simp
      then show ?thesis using r(3) that by blast
    qed
    have lo: "dst' ! q = dst ! q" if "int q < i" for q
    proof -
      have "dst' ! q = ?dst ! q" using r(4) that by simp
      also have "\<dots> = dst ! q" using that by (intro nth_list_update_neq) auto
      finally show ?thesis .
    qed
    show ?thesis unfolding step using r(1,2) hi lo by blast
  qed
qed

lemma Copy_result:
  assumes inv: "rb_inv rb"
  shows "\<exists>dst'. Copy rb dst = Inr (dst', min (len rb) (int (length dst)), None) \<and>
           length dst' = length dst \<and>
           take (nat (min (len rb) (int (length dst)))) dst' = take (length dst) (contents rb)"
proof -
  let ?k = "min (len rb) (int (length dst))"
  have l0: "0 \<le> len rb" using inv by (simp add: rb_inv_def)
  obtain e dst' where r: "Walk_loop rb Copy_fn 0 (dst, 0) = Inr (e, dst', ?k)"
      "length dst' = length dst"
      "\<forall>q. 0 \<le> int q \<and> int q < ?k \<longrightarrow> dst' ! q = contents rb ! q"
    using Walk_loop_Copy_fn[OF inv, of "nat (len rb)" 0 dst] l0 by auto
  have c: "Copy rb dst = Inr (dst', ?k, None)" by (simp add: Copy_def Walk_def r(1))
  have "take (nat ?k) dst' = take (length dst) (contents rb)"
  proof (rule nth_equalityI)
    show "length (take (nat ?k) dst') = length (take (length dst) (contents rb))"
      using l0 r(2) by (simp add: length_contents min_def) linarith
    fix q assume "q < length (take (nat ?k) dst')"
    then have q: "q < nat ?k" "q < length dst" using r(2) by simp_all
    then have "int q < ?k" by linarith
    then have "dst' ! q = contents rb ! q" using r(3) by simp
    then show "take (nat ?k) dst' ! q = take (length dst) (contents rb) ! q" using q by simp
  qed
  then show ?thesis using c r(2) by blast
qed

text \<open>
  Claim C10. \<open>Take(n)\<close> panics at \<open>make([]T, n)\<close> and returns nothing, on any
  buffer, for every \<open>n < 0\<close> and for every \<open>n\<close> above the greatest length \<open>lim\<close>
  that \<open>make\<close> allocates. For \<open>0 \<le> n \<le> lim\<close> and every buffer a client can hold it
  returns, with a nil error, the first \<open>n\<close> values that \<open>Walk\<close> yields (all of them
  when there are fewer): a slice of length between 0 and \<open>n\<close>.
\<close>

theorem C10_take_panics_outside_range:
  "(n < 0 \<or> lim < n \<longrightarrow> Take lim rb n = Inl MakeLenOutOfRange) \<and>
   (0 \<le> n \<and> n \<le> lim \<and> reachable rb \<longrightarrow>
      (\<exists>xs ys. Take lim rb n = Inr (xs, None) \<and> walk_all rb = Inr ys \<and> xs = take (nat n) ys \<and>
         0 \<le> int (length xs) \<and> int (length xs) \<le> n))"
proof -
  have out: "Take lim rb n = Inl MakeLenOutOfRange" if "n < 0 \<or> lim < n"
    using that by (auto simp: Take_def make_slice_upto_def)
  have pos: "\<exists>xs ys. Take lim rb n = Inr (xs, None) \<and> walk_all rb = Inr ys \<and> xs = take (nat n) ys \<and>
      0 \<le> int (length xs) \<and> int (length xs) \<le> n" if n: "0 \<le> n" "n \<le> lim" and r: "reachable rb"
  proof -
    have inv: "rb_inv rb" using r by (rule reachable_inv)
    let ?dst = "replicate (nat n) (0::'a)"
    let ?k = "min (len rb) (int (length ?dst))"
    obtain dst' where c: "Copy rb ?dst = Inr (dst', ?k, None)" "length dst' = length ?dst"
        "take (nat ?k) dst' = take (length ?dst) (contents rb)"
      using Copy_result[OF inv, of ?dst] by blast
    have k: "0 \<le> ?k" "?k \<le> int (length dst')" using inv c(2) n by (simp_all add: rb_inv_def)
    have s: "slice_to dst' ?k = Inr (take (nat ?k) dst')" using k by (simp add: slice_to_def)
    have t: "Take lim rb n = Inr (take (nat n) (contents rb), None)"
      using n c(1,3) s by (simp add: Take_def make_slice_upto_def)
    have "int (length (take (nat n) (contents rb))) \<le> n" using n by simp
    then show ?thesis using t walk_all_contents[OF inv] by simp
  qed
  show ?thesis using out pos by blast
qed

text \<open>
  On the buffer holding 3, 2, 1, with the limit \<open>2^45\<close>: \<open>Take(-1)\<close> panics and
  \<open>Take(2)\<close> returns 3, 2.
\<close>

theorem C10_take_panics_outside_range_witness:
  "(-1::int) < 0 \<and>
   Take 35184372088832 \<lparr>buf = [1, 2, 3 :: int], cur = 0, len = 3\<rparr> (-1) = Inl MakeLenOutOfRange \<and>
   (0::int) \<le> 2 \<and> (2::int) \<le> 35184372088832 \<and> reachable \<lparr>buf = [1, 2, 3 :: int], cur = 0, len = 3\<rparr> \<and>
   Take 35184372088832 \<lparr>buf = [1, 2, 3 :: int], cur = 0, len = 3\<rparr> 2 = Inr ([3, 2], None)"
proof -
  let ?rb = "\<lparr>buf = [1, 2, 3 :: int], cur = 0, len = 3\<rparr>"
  have n: "NewRingBuffer 3 = Inr \<lparr>buf = [0, 0, 0 :: int], cur = 0, len = 0\<rparr>"
    by (simp add: NewRingBuffer_def make_slice_def numeral_3_eq_3)
  have a: "Adds \<lparr>buf = [0, 0, 0 :: int], cur = 0, len = 0\<rparr> [1, 2, 3] = Inr ?rb"
    by (simp add: Add_def store_def index_def)
  have r: "reachable ?rb" using Adds_reachable[OF reachable.new[OF n] a] .
  have w: "walk_all ?rb = Inr [3, 2, 1]"
    using walk_all_contents[OF reachable_inv[OF r]]
    by (simp add: contents_def slot_def upt_rec)
  have p: "Take 35184372088832 ?rb (-1) = Inl MakeLenOutOfRange"
    using C10_take_panics_outside_range[of "-1" 35184372088832 ?rb] by simp
  have "\<exists>xs ys. Take 35184372088832 ?rb 2 = Inr (xs, None) \<and> walk_all ?rb = Inr ys \<and> xs = take (nat 2) ys"
    using C10_take_panics_outside_range[of 2 35184372088832 ?rb] r by auto
  then have t: "Take 35184372088832 ?rb 2 = Inr ([3, 2], None)" using w by (auto simp: numeral_2_eq_2)
  show ?thesis using p r t by simp
qed

text \<open>
  With \<open>n \<ge> 0\<close> the panic can still be reached: on the same buffer, with 8-byte values
  and the limit \<open>2^45\<close> of 64-bit Linux, \<open>Take(1 << 62)\<close> panics in \<open>make\<close>.
\<close>

theorem C10_take_large_counterexample:
  "(0::int) \<le> 4611686018427387904 \<and> reachable \<lparr>buf = [1, 2, 3 :: int], cur = 0, len = 3\<rparr> \<and>
   Take 35184372088832 \<lparr>buf = [1, 2, 3 :: int], cur = 0, len = 3\<rparr> 4611686018427387904
     = Inl MakeLenOutOfRange"
proof -
  let ?rb = "\<lparr>buf = [1, 2, 3 :: int], cur = 0, len = 3\<rparr>"
  have n: "NewRingBuffer 3 = Inr \<lparr>buf = [0, 0, 0 :: int], cur = 0, len = 0\<rparr>"
    by (simp add: NewRingBuffer_def make_slice_def numeral_3_eq_3)
  have a: "Adds \<lparr>buf = [0, 0, 0 :: int], cur = 0, len = 0\<rparr> [1, 2, 3] = Inr ?rb"
    by (simp add: Add_def store_def index_def)
  have r: "reachable ?rb" using Adds_reachable[OF reachable.new[OF n] a] .
  have "Take 35184372088832 ?rb 4611686018427387904 = Inl MakeLenOutOfRange"
    by (simp add: Take_def make_slice_upto_def)
  then show ?thesis using r by simp
qed

section \<open>The set of ring buffers: one buffer per key\<close>

lemma GetOrCreate_present:
  "map_of (bufs (rbs s)) k = Some a \<Longrightarrow> GetOrCreate s k = Inr (a, s)"
  by (simp add: GetOrCreate_def)

lemma GetOrCreate_absent:
  assumes "map_of (bufs (rbs s)) k = None" and "0 \<le> sz (rbs s)"
  shows "GetOrCreate s k =
    Inr (length (heap s),
         s\<lparr>rbs := (rbs s)\<lparr>bufs := bufs (rbs s) @ [(k, length (heap s))]\<rparr>,
           heap := heap s @ [\<lparr>buf = replicate (nat (sz (rbs s))) 0, cur = 0, len = 0\<rparr>]\<rparr>)"
  using assms by (simp add: GetOrCreate_def NewRingBuffer_def make_slice_def)

lemma map_of_append_new:
  "map_of xs k = None \<Longrightarrow> map_of (xs @ [(k, a)]) k' = (if k' = k then Some a else map_of xs k')"
  by (induction xs) auto

lemma GetOrCreate_lookup:
  assumes "GetOrCreate s k = Inr (a, s')"
  shows "map_of (bufs (rbs s')) k = Some a"
proof (cases "map_of (bufs (rbs s)) k")
  case None
  then show ?thesis using assms
    by (auto simp: GetOrCreate_def map_of_append_new simp del: map_of_append split: sum.splits)
next
  case (Some b)
  then show ?thesis using assms by (simp add: GetOrCreate_def)
qed

lemma GetOrCreate_keeps:
  assumes "GetOrCreate s k = Inr (a, s')" and "map_of (bufs (rbs s)) k' = Some b"
  shows "map_of (bufs (rbs s')) k' = Some b"
proof (cases "map_of (bufs (rbs s)) k")
  case None
  then have "k' \<noteq> k" using assms(2) by auto
  then show ?thesis using assms None
    by (auto simp: GetOrCreate_def map_of_append_new simp del: map_of_append split: sum.splits)
next
  case (Some c)
  then show ?thesis using assms by (simp add: GetOrCreate_def)
qed

lemma exec_keeps:
  assumes "exec s c = Inr s'" and "map_of (bufs (rbs s)) k = Some a"
  shows "map_of (bufs (rbs s')) k = Some a"
proof (cases c)
  case (CallGetOrCreate k')
  then show ?thesis using assms GetOrCreate_keeps by (auto split: sum.splits)
next
  case (CallResizeAll n)
  then show ?thesis using assms
    by (auto simp: RingBuffers_Resize_def split: sum.splits if_splits)
next
  case (CallAdd b v)
  then show ?thesis using assms by (auto simp: Add_at_def split: sum.splits)
next
  case (CallResize b n)
  then show ?thesis using assms by (auto simp: Resize_at_def split: sum.splits)
qed

lemma execs_keeps:
  "execs s cs = Inr s' \<Longrightarrow> map_of (bufs (rbs s)) k = Some a \<Longrightarrow> map_of (bufs (rbs s')) k = Some a"
proof (induction cs arbitrary: s)
  case Nil
  then show ?case by simp
next
  case (Cons c cs)
  obtain s1 where s1: "exec s c = Inr s1" "execs s1 cs = Inr s'"
    using Cons.prems(1) by (auto split: sum.splits)
  have "map_of (bufs (rbs s1)) k = Some a" using s1(1) Cons.prems(2) by (rule exec_keeps)
  then show ?case using Cons.IH[OF s1(2)] by simp
qed

lemma state_inv_init: "state_inv (init_state n)" "state_inv (init_state_cap n)"
  by (simp_all add: state_inv_def init_state_def init_state_cap_def NewRingBuffers_def NewRingBuffers_cap_def)

lemma state_inv_update:
  assumes "state_inv s" and "rb_inv rb"
  shows "state_inv (s\<lparr>heap := (heap s)[a := rb]\<rparr>)"
proof -
  have "set ((heap s)[a := rb]) \<subseteq> insert rb (set (heap s))" by (rule set_update_subset_insert)
  then show ?thesis using assms by (auto simp: state_inv_def)
qed

lemma state_inv_GetOrCreate:
  assumes "state_inv s" and "GetOrCreate s k = Inr (a, s')"
  shows "state_inv s'"
proof (cases "map_of (bufs (rbs s)) k")
  case None
  then obtain rb where n: "NewRingBuffer (sz (rbs s)) = Inr rb"
      and s': "s' = s\<lparr>rbs := (rbs s)\<lparr>bufs := bufs (rbs s) @ [(k, length (heap s))]\<rparr>,
                     heap := heap s @ [rb]\<rparr>"
    using assms(2) by (auto simp: GetOrCreate_def split: sum.splits)
  have "rb_inv rb" using NewRingBuffer_inv[OF n] by simp
  then show ?thesis unfolding s' using assms(1) by (auto simp: state_inv_def less_Suc_eq)
next
  case (Some b)
  then show ?thesis using assms by (simp add: GetOrCreate_def)
qed

lemma Resize_each_inv:
  assumes n: "0 < n"
  shows "(\<forall>(k, a) \<in> set bs. a < length h) \<Longrightarrow> (\<forall>rb \<in> set h. rb_inv rb) \<Longrightarrow>
    \<exists>h' d'. Resize_each bs n h d = Inr (h', d') \<and> length h' = length h \<and> (\<forall>rb \<in> set h'. rb_inv rb)"
proof (induction bs arbitrary: h d)
  case Nil
  then show ?case by simp
next
  case (Cons b bs)
  obtain name a where b: "b = (name, a)" by (cases b)
  have a: "a < length h" using Cons.prems(1) b by simp
  then have inv: "rb_inv (h ! a)" using Cons.prems(2) by simp
  obtain rb' where r: "Resize (h ! a) n = Inr (rb', drop (nat n) (contents (h ! a)))" "rb_inv rb'"
    using Resize_positive[OF inv n] by blast
  let ?h = "h[a := rb']"
  have "set ?h \<subseteq> insert rb' (set h)" by (rule set_update_subset_insert)
  then have h2: "\<forall>rb \<in> set ?h. rb_inv rb" using Cons.prems(2) r(2) by auto
  have h1: "\<forall>(k, a) \<in> set bs. a < length ?h" using Cons.prems(1) by auto
  show ?case
    using Cons.IH[OF h1 h2] a r(1) b by (simp add: deref_def)
qed

lemma state_inv_Resize:
  assumes "state_inv s"
  shows "\<exists>s' ds. RingBuffers_Resize s n = Inr (s', ds) \<and> state_inv s'"
proof (cases "0 < n")
  case True
  have "\<exists>h' d'. Resize_each (bufs (rbs s)) n (heap s) Map.empty = Inr (h', d') \<and> length h' = length (heap s) \<and>
      (\<forall>rb \<in> set h'. rb_inv rb)"
    using assms by (intro Resize_each_inv[OF True]) (auto simp: state_inv_def)
  then obtain h' d' where r: "Resize_each (bufs (rbs s)) n (heap s) Map.empty = Inr (h', d')"
      "length h' = length (heap s)" "\<forall>rb \<in> set h'. rb_inv rb"
    by blast
  have "state_inv (s\<lparr>rbs := (rbs s)\<lparr>sz := n\<rparr>, heap := h'\<rparr>)"
    using assms r(2,3) by (auto simp: state_inv_def)
  then show ?thesis using r(1) True by (simp add: RingBuffers_Resize_def)
next
  case False
  then show ?thesis using assms by (simp add: RingBuffers_Resize_def)
qed

lemma state_inv_exec:
  assumes "state_inv s" and "exec s c = Inr s'"
  shows "state_inv s'"
proof (cases c)
  case (CallGetOrCreate k)
  then show ?thesis using state_inv_GetOrCreate[OF assms(1)] assms(2) by (auto split: sum.splits)
next
  case (CallResizeAll n)
  then show ?thesis using state_inv_Resize[OF assms(1), of n] assms(2) by auto
next
  case (CallAdd a v)
  then obtain rb' d ok where r: "a < length (heap s)" "Add (heap s ! a) v = Inr (rb', d, ok)"
      "s' = s\<lparr>heap := (heap s)[a := rb']\<rparr>"
    using assms(2) by (auto simp: Add_at_def deref_def split: sum.splits if_splits)
  have "rb_inv (heap s ! a)" using assms(1) r(1) by (simp add: state_inv_def)
  then have "rb_inv rb'" using r(2) by (rule Add_inv)
  then show ?thesis unfolding r(3) using assms(1) by (intro state_inv_update)
next
  case (CallResize a n)
  then obtain rb' ds where r: "a < length (heap s)" "Resize (heap s ! a) n = Inr (rb', ds)"
      "s' = s\<lparr>heap := (heap s)[a := rb']\<rparr>"
    using assms(2) by (auto simp: Resize_at_def deref_def split: sum.splits if_splits)
  have "rb_inv (heap s ! a)" using assms(1) r(1) by (simp add: state_inv_def)
  then have "rb_inv rb'" using r(2) by (rule Resize_inv)
  then show ?thesis unfolding r(3) using assms(1) by (intro state_inv_update)
qed

lemma reachable_state_inv: "reachable_state s \<Longrightarrow> state_inv s"
  by (induction rule: reachable_state.induct) (auto intro: state_inv_init state_inv_exec)

lemma execs_reachable: "reachable_state s \<Longrightarrow> execs s cs = Inr s' \<Longrightarrow> reachable_state s'"
proof (induction cs arbitrary: s)
  case Nil
  then show ?case by simp
next
  case (Cons c cs)
  then show ?case by (auto split: sum.splits intro: reachable_state.step)
qed

lemma Add_at_visible:
  assumes inv: "state_inv s" and a: "a < length (heap s)"
  shows "\<exists>s' d ok xs. Add_at s a v = Inr (s', d, ok) \<and> rbs s' = rbs s \<and>
           walk_all_at s' a = Inr xs \<and>
           (0 < length (buf (heap s ! a)) \<longrightarrow> xs \<noteq> [] \<and> hd xs = v) \<and>
           (length (buf (heap s ! a)) = 0 \<longrightarrow> xs = [] \<and> s' = s)"
proof (cases "0 < length (buf (heap s ! a))")
  case p: True
  let ?rb = "heap s ! a"
  have i: "rb_inv ?rb" using inv a by (simp add: state_inv_def)
  let ?s = "s\<lparr>heap := (heap s)[a := Add_next ?rb v]\<rparr>"
  have r: "Add_at s a v = Inr (?s, if len ?rb = int (length (buf ?rb)) then buf ?rb ! nat (cur ?rb) else 0,
      len ?rb = int (length (buf ?rb)))"
    using a Add_result[OF i p, of v] by (simp add: Add_at_def deref_def)
  have "walk_all_at ?s a = walk_all (Add_next ?rb v)" using a by (simp add: walk_all_at_def deref_def)
  also have "\<dots> = Inr (contents (Add_next ?rb v))"
    using Add_next_inv[OF i p] by (rule walk_all_contents)
  also have "contents (Add_next ?rb v) = take (length (buf ?rb)) (v # contents ?rb)"
    using i p by (rule contents_Add_next)
  finally have w: "walk_all_at ?s a = Inr (take (length (buf ?rb)) (v # contents ?rb))" .
  obtain c where c: "length (buf ?rb) = Suc c" using p by (cases "length (buf ?rb)") auto
  have "take (length (buf ?rb)) (v # contents ?rb) \<noteq> [] \<and> hd (take (length (buf ?rb)) (v # contents ?rb)) = v"
    unfolding c by simp
  then show ?thesis using r w p by auto
next
  case False
  let ?rb = "heap s ! a"
  have z: "length (buf ?rb) = 0" using False by simp
  have i: "rb_inv ?rb" using inv a by (simp add: state_inv_def)
  have "(heap s)[a := ?rb] = heap s" by (rule list_update_id)
  then have r: "Add_at s a v = Inr (s, 0, False)"
    using a Add_zero_cap[OF z, of v] by (simp add: Add_at_def deref_def)
  have "len ?rb = 0" using i z by (simp add: rb_inv_def)
  then have "contents ?rb = []" by (simp add: contents_def)
  then have w: "walk_all_at s a = Inr []"
    using a walk_all_contents[OF i] by (simp add: walk_all_at_def deref_def)
  show ?thesis using r w z by auto
qed

text \<open>
  Claim C7. In every state of a set of ring buffers built by \<open>NewRingBuffers\<close> of either
  file and changed by calls on it and on the pointers it returned: once \<open>GetOrCreate\<close>
  has returned a pointer for a key, then after any further calls (\<open>GetOrCreate\<close>,
  \<open>RingBuffers.Resize\<close>, \<open>Add\<close> and \<open>Resize\<close> through any pointer) the key still
  maps to that pointer and \<open>GetOrCreate\<close> with the key returns that pointer without
  changing the state. \<open>Add\<close> through the pointer returns, and \<open>Walk\<close> through the
  pointer that a later \<open>GetOrCreate\<close> with the key returns yields the added value first
  when the capacity of the buffer is positive; when the capacity is 0 it yields nothing.
\<close>

theorem C7_same_buffer_per_key:
  assumes "reachable_state s" and "GetOrCreate s k = Inr (a, s1)" and "execs s1 cs = Inr s2"
  shows "GetOrCreate s2 k = Inr (a, s2) \<and> map_of (bufs (rbs s2)) k = Some a \<and>
         (\<exists>rb s3 d ok xs. deref (heap s2) a = Inr rb \<and> Add_at s2 a v = Inr (s3, d, ok) \<and>
            GetOrCreate s3 k = Inr (a, s3) \<and> walk_all_at s3 a = Inr xs \<and>
            (0 < length (buf rb) \<longrightarrow> xs \<noteq> [] \<and> hd xs = v) \<and>
            (length (buf rb) = 0 \<longrightarrow> xs = []))"
proof -
  have "exec s (CallGetOrCreate k) = Inr s1" using assms(2) by simp
  then have "reachable_state s1" using assms(1) by (rule reachable_state.step[rotated])
  then have "reachable_state s2" using assms(3) by (rule execs_reachable)
  then have inv: "state_inv s2" by (rule reachable_state_inv)
  have "map_of (bufs (rbs s1)) k = Some a" using assms(2) by (rule GetOrCreate_lookup)
  then have l: "map_of (bufs (rbs s2)) k = Some a" using assms(3) execs_keeps by blast
  then have g: "GetOrCreate s2 k = Inr (a, s2)" by (rule GetOrCreate_present)
  have "(k, a) \<in> set (bufs (rbs s2))" using l by (rule map_of_SomeD)
  then have a: "a < length (heap s2)" using inv by (auto simp: state_inv_def)
  then have d: "deref (heap s2) a = Inr (heap s2 ! a)" by (simp add: deref_def)
  obtain s3 d ok xs where r: "Add_at s2 a v = Inr (s3, d, ok)" "rbs s3 = rbs s2"
      "walk_all_at s3 a = Inr xs"
      "0 < length (buf (heap s2 ! a)) \<longrightarrow> xs \<noteq> [] \<and> hd xs = v"
      "length (buf (heap s2 ! a)) = 0 \<longrightarrow> xs = [] \<and> s3 = s2"
    using Add_at_visible[OF inv a, of v] by blast
  have "GetOrCreate s3 k = Inr (a, s3)" using l r(2) by (intro GetOrCreate_present) simp
  then show ?thesis using g l d r by blast
qed

text \<open>The equations that evaluate a run of calls on concrete states.\<close>

lemmas run_defs = GetOrCreate_def NewRingBuffer_def make_slice_def Add_at_def Resize_at_def deref_def
  Add_def index_def store_def RingBuffers_Resize_def Resize_def Resize_copy.simps Resize_dropped.simps
  init_state_def NewRingBuffers_def init_state_cap_def NewRingBuffers_cap_def
  numeral_3_eq_3 numeral_2_eq_2

text \<open>
  As in the test, on a set built by \<open>NewRingBuffers(3)\<close> of src/ring\_buffers.go:
  \<open>GetOrCreate("foo")\<close> returns pointer 0; after two \<open>Add\<close>s, the creation of "bar",
  an \<open>Add\<close> to it and \<open>Resize(2)\<close> on the set, "foo" still maps to pointer 0, and
  789 added through it is what \<open>Walk\<close> yields first.
\<close>

theorem C7_same_buffer_per_key_witness:
  "reachable_state (init_state_cap 3 :: int pkg_state) \<and>
   GetOrCreate (init_state_cap 3 :: int pkg_state) ''foo''
     = Inr (0, \<lparr>rbs = \<lparr>sz = 3, bufs = [(''foo'', 0)]\<rparr>, heap = [\<lparr>buf = [0, 0, 0], cur = 0, len = 0\<rparr>]\<rparr>) \<and>
   execs \<lparr>rbs = \<lparr>sz = 3, bufs = [(''foo'', 0)]\<rparr>, heap = [\<lparr>buf = [0, 0, 0 :: int], cur = 0, len = 0\<rparr>]\<rparr>
       [CallAdd 0 123, CallAdd 0 456, CallGetOrCreate ''bar'', CallAdd 1 1, CallResizeAll 2]
     = Inr \<lparr>rbs = \<lparr>sz = 2, bufs = [(''foo'', 0), (''bar'', 1)]\<rparr>,
            heap = [\<lparr>buf = [123, 456], cur = 0, len = 2\<rparr>, \<lparr>buf = [1, 0], cur = 1, len = 1\<rparr>]\<rparr> \<and>
   GetOrCreate \<lparr>rbs = \<lparr>sz = 2, bufs = [(''foo'', 0), (''bar'', 1)]\<rparr>,
            heap = [\<lparr>buf = [123, 456 :: int], cur = 0, len = 2\<rparr>, \<lparr>buf = [1, 0], cur = 1, len = 1\<rparr>]\<rparr> ''foo''
     = Inr (0, \<lparr>rbs = \<lparr>sz = 2, bufs = [(''foo'', 0), (''bar'', 1)]\<rparr>,
            heap = [\<lparr>buf = [123, 456], cur = 0, len = 2\<rparr>, \<lparr>buf = [1, 0], cur = 1, len = 1\<rparr>]\<rparr>) \<and>
   (\<exists>s3 d ok xs. Add_at \<lparr>rbs = \<lparr>sz = 2, bufs = [(''foo'', 0), (''bar'', 1)]\<rparr>,
            heap = [\<lparr>buf = [123, 456 :: int], cur = 0, len = 2\<rparr>, \<lparr>buf = [1, 0], cur = 1, len = 1\<rparr>]\<rparr> 0 789
          = Inr (s3, d, ok) \<and> GetOrCreate s3 ''foo'' = Inr (0, s3) \<and> walk_all_at s3 0 = Inr xs \<and>
          xs \<noteq> [] \<and> hd xs = 789)"
proof -
  let ?s1 = "\<lparr>rbs = \<lparr>sz = 3, bufs = [(''foo'', 0)]\<rparr>, heap = [\<lparr>buf = [0, 0, 0 :: int], cur = 0, len = 0\<rparr>]\<rparr>"
  let ?s2 = "\<lparr>rbs = \<lparr>sz = 2, bufs = [(''foo'', 0), (''bar'', 1)]\<rparr>,
            heap = [\<lparr>buf = [123, 456 :: int], cur = 0, len = 2\<rparr>, \<lparr>buf = [1, 0], cur = 1, len = 1\<rparr>]\<rparr>"
  have r: "reachable_state (init_state_cap 3 :: int pkg_state)" by (rule reachable_state.init_cap)
  have g: "GetOrCreate (init_state_cap 3 :: int pkg_state) ''foo'' = Inr (0, ?s1)"
    by (simp add: run_defs)
  have e: "execs ?s1 [CallAdd 0 123, CallAdd 0 456, CallGetOrCreate ''bar'', CallAdd 1 1, CallResizeAll 2] = Inr ?s2"
    by (simp add: run_defs)
  obtain rb s3 d ok xs where h: "GetOrCreate ?s2 ''foo'' = Inr (0, ?s2)"
      "deref (heap ?s2) 0 = Inr rb" "Add_at ?s2 0 789 = Inr (s3, d, ok)"
      "GetOrCreate s3 ''foo'' = Inr (0, s3)" "walk_all_at s3 0 = Inr xs"
      "0 < length (buf rb) \<longrightarrow> xs \<noteq> [] \<and> hd xs = 789"
    using C7_same_buffer_per_key[OF r g e, of 789] by blast
  have "rb = \<lparr>buf = [123, 456], cur = 0, len = 2\<rparr>" using h(2) by (simp add: deref_def)
  then have "xs \<noteq> [] \<and> hd xs = 789" using h(6) by simp
  then show ?thesis using r g e h(1,3,4,5) by blast
qed

text \<open>
  The inserted value is not always seen. \<open>NewRingBuffers(0)\<close> of src/ring\_buffers.go
  keeps the size 0, so \<open>GetOrCreate("foo")\<close> creates a buffer of capacity 0; the two
  calls return the same pointer, but \<open>Add(789)\<close> through it stores nothing and \<open>Walk\<close>
  through it yields nothing.
\<close>

theorem C7_zero_capacity_counterexample:
  "reachable_state (init_state_cap 0 :: int pkg_state) \<and>
   GetOrCreate (init_state_cap 0 :: int pkg_state) ''foo''
     = Inr (0, \<lparr>rbs = \<lparr>sz = 0, bufs = [(''foo'', 0)]\<rparr>, heap = [\<lparr>buf = [], cur = 0, len = 0\<rparr>]\<rparr>) \<and>
   Add_at \<lparr>rbs = \<lparr>sz = 0, bufs = [(''foo'', 0)]\<rparr>, heap = [\<lparr>buf = [] :: int list, cur = 0, len = 0\<rparr>]\<rparr> 0 789
     = Inr (\<lparr>rbs = \<lparr>sz = 0, bufs = [(''foo'', 0)]\<rparr>, heap = [\<lparr>buf = [], cur = 0, len = 0\<rparr>]\<rparr>, 0, False) \<and>
   GetOrCreate \<lparr>rbs = \<lparr>sz = 0, bufs = [(''foo'', 0)]\<rparr>, heap = [\<lparr>buf = [] :: int list, cur = 0, len = 0\<rparr>]\<rparr> ''foo''
     = Inr (0, \<lparr>rbs = \<lparr>sz = 0, bufs = [(''foo'', 0)]\<rparr>, heap = [\<lparr>buf = [], cur = 0, len = 0\<rparr>]\<rparr>) \<and>
   walk_all_at \<lparr>rbs = \<lparr>sz = 0, bufs = [(''foo'', 0)]\<rparr>, heap = [\<lparr>buf = [] :: int list, cur = 0, len = 0\<rparr>]\<rparr> 0
     = Inr []"
proof -
  let ?s = "\<lparr>rbs = \<lparr>sz = 0, bufs = [(''foo'', 0)]\<rparr>, heap = [\<lparr>buf = [] :: int list, cur = 0, len = 0\<rparr>]\<rparr>"
  have r: "reachable_state (init_state_cap 0 :: int pkg_state)" by (rule reachable_state.init_cap)
  have g: "GetOrCreate (init_state_cap 0 :: int pkg_state) ''foo'' = Inr (0, ?s)"
    by (simp add: run_defs)
  have a: "Add_at ?s 0 789 = Inr (?s, 0, False)" by (simp add: run_defs)
  have g2: "GetOrCreate ?s ''foo'' = Inr (0, ?s)" by (simp add: run_defs)
  have w: "walk_all_at ?s 0 = Inr []"
    by (simp add: walk_all_at_def deref_def walk_all_def Walk_def Walk_loop_empty)
  show ?thesis using r g a g2 w by simp
qed

section \<open>The default size\<close>

lemma exec_keeps_default:
  assumes "\<not> changes_default c" and "exec s c = Inr s'"
  shows "sz (rbs s') = sz (rbs s)"
proof (cases c)
  case (CallGetOrCreate k)
  then show ?thesis using assms(2)
    by (auto simp: GetOrCreate_def split: sum.splits option.splits)
next
  case (CallResizeAll n)
  then show ?thesis using assms by (auto simp: RingBuffers_Resize_def split: sum.splits if_splits)
next
  case (CallAdd a v)
  then show ?thesis using assms(2) by (auto simp: Add_at_def split: sum.splits)
next
  case (CallResize a n)
  then show ?thesis using assms(2) by (auto simp: Resize_at_def split: sum.splits)
qed

lemma execs_keeps_default:
  "\<forall>c \<in> set cs. \<not> changes_default c \<Longrightarrow> execs s cs = Inr s' \<Longrightarrow> sz (rbs s') = sz (rbs s)"
proof (induction cs arbitrary: s)
  case Nil
  then show ?case by simp
next
  case (Cons c cs)
  obtain s1 where s1: "exec s c = Inr s1" "execs s1 cs = Inr s'"
    using Cons.prems(2) by (auto split: sum.splits)
  have "sz (rbs s1) = sz (rbs s)" using Cons.prems(1) s1(1) by (intro exec_keeps_default) auto
  moreover have "sz (rbs s') = sz (rbs s1)" using Cons.prems(1) s1(2) by (intro Cons.IH) auto
  ultimately show ?case by simp
qed

lemma GetOrCreate_creates:
  assumes "map_of (bufs (rbs s)) k = None" and "0 \<le> sz (rbs s)"
  shows "\<exists>a s' rb. GetOrCreate s k = Inr (a, s') \<and> deref (heap s') a = Inr rb \<and>
           buf rb = replicate (nat (sz (rbs s))) 0 \<and> len rb = 0"
  using GetOrCreate_absent[OF assms] by (simp add: deref_def)

text \<open>
  Claim C4. The constructor stores the default size, and \<open>GetOrCreate\<close> gives each
  buffer it creates the default size of that moment, which only \<open>RingBuffers.Resize\<close>
  with a positive size changes. For every \<open>n < 1\<close> and every run of calls that has no
  such \<open>Resize\<close>: with the constructor of src/unnamed/part\_000 (\<open>max(1, sz)\<close>) the
  default size is 1 and stays 1, and \<open>GetOrCreate\<close> with a new key creates an empty
  buffer of capacity 1; with the constructor of src/ring\_buffers.go (\<open>cap: cap\<close>) the
  default size is \<open>n\<close> and stays \<open>n\<close>, so for \<open>n = 0\<close> \<open>GetOrCreate\<close> with a new
  key creates a buffer of capacity 0, and for \<open>n < 0\<close> it panics in \<open>make\<close>.
\<close>

theorem C4_default_size_of_constructors:
  assumes "n < 1" and "\<forall>c \<in> set cs. \<not> changes_default c" and "map_of (bufs (rbs s)) k = None"
  shows "(execs (init_state n) cs = Inr s \<longrightarrow>
            sz (NewRingBuffers n) = 1 \<and> sz (rbs s) = 1 \<and>
            (\<exists>a s' rb. GetOrCreate s k = Inr (a, s') \<and> deref (heap s') a = Inr rb \<and>
               length (buf rb) = 1 \<and> len rb = 0)) \<and>
         (execs (init_state_cap n) cs = Inr s \<longrightarrow>
            sz (NewRingBuffers_cap n) = n \<and> sz (rbs s) = n \<and>
            (n = 0 \<longrightarrow> (\<exists>a s' rb. GetOrCreate s k = Inr (a, s') \<and> deref (heap s') a = Inr rb \<and>
               buf rb = [] \<and> len rb = 0)) \<and>
            (n < 0 \<longrightarrow> GetOrCreate s k = Inl MakeLenOutOfRange))"
proof -
  have one: "sz (NewRingBuffers n) = 1 \<and> sz (rbs s) = 1 \<and>
      (\<exists>a s' rb. GetOrCreate s k = Inr (a, s') \<and> deref (heap s') a = Inr rb \<and>
         length (buf rb) = 1 \<and> len rb = 0)" if e: "execs (init_state n) cs = Inr s"
  proof -
    have z: "sz (NewRingBuffers n) = 1" using assms(1) by (simp add: NewRingBuffers_def)
    have "sz (rbs s) = sz (rbs (init_state n :: 'a pkg_state))"
      using assms(2) e by (rule execs_keeps_default)
    then have d: "sz (rbs s) = 1" using z by (simp add: init_state_def)
    then have "0 \<le> sz (rbs s)" by simp
    from GetOrCreate_creates[OF assms(3) this] show ?thesis using z d by auto
  qed
  have cap: "sz (NewRingBuffers_cap n) = n \<and> sz (rbs s) = n \<and>
      (n = 0 \<longrightarrow> (\<exists>a s' rb. GetOrCreate s k = Inr (a, s') \<and> deref (heap s') a = Inr rb \<and>
         buf rb = [] \<and> len rb = 0)) \<and>
      (n < 0 \<longrightarrow> GetOrCreate s k = Inl MakeLenOutOfRange)" if e: "execs (init_state_cap n) cs = Inr s"
  proof -
    have z: "sz (NewRingBuffers_cap n) = n" by (simp add: NewRingBuffers_cap_def)
    have "sz (rbs s) = sz (rbs (init_state_cap n :: 'a pkg_state))"
      using assms(2) e by (rule execs_keeps_default)
    then have d: "sz (rbs s) = n" using z by (simp add: init_state_cap_def)
    have zero: "\<exists>a s' rb. GetOrCreate s k = Inr (a, s') \<and> deref (heap s') a = Inr rb \<and>
        buf rb = [] \<and> len rb = 0" if "n = 0"
    proof -
      have "0 \<le> sz (rbs s)" using d that by simp
      from GetOrCreate_creates[OF assms(3) this] show ?thesis using d that by auto
    qed
    have neg: "GetOrCreate s k = Inl MakeLenOutOfRange" if "n < 0"
      using assms(3) d that by (simp add: GetOrCreate_def NewRingBuffer_def make_slice_def)
    show ?thesis using z d zero neg by blast
  qed
  show ?thesis using one cap by blast
qed

text \<open>
  Size 0, then "bar" is created, gets an \<open>Add\<close> and the set a \<open>Resize(0)\<close>: with the
  constructor of part\_000 the buffer then created for "foo" has capacity 1, with the one
  of src/ring\_buffers.go it has capacity 0.
\<close>

theorem C4_default_size_of_constructors_witness:
  "(0::int) < 1 \<and>
   execs (init_state 0) [CallGetOrCreate ''bar'', CallAdd 0 (7::int), CallResizeAll 0]
     = Inr \<lparr>rbs = \<lparr>sz = 1, bufs = [(''bar'', 0)]\<rparr>, heap = [\<lparr>buf = [7], cur = 0, len = 1\<rparr>]\<rparr> \<and>
   sz (NewRingBuffers 0) = 1 \<and>
   (\<exists>a s' rb. GetOrCreate \<lparr>rbs = \<lparr>sz = 1, bufs = [(''bar'', 0)]\<rparr>, heap = [\<lparr>buf = [7::int], cur = 0, len = 1\<rparr>]\<rparr> ''foo''
        = Inr (a, s') \<and> deref (heap s') a = Inr rb \<and> length (buf rb) = 1 \<and> len rb = 0) \<and>
   execs (init_state_cap 0) [CallGetOrCreate ''bar'', CallAdd 0 (7::int), CallResizeAll 0]
     = Inr \<lparr>rbs = \<lparr>sz = 0, bufs = [(''bar'', 0)]\<rparr>, heap = [\<lparr>buf = [], cur = 0, len = 0\<rparr>]\<rparr> \<and>
   sz (NewRingBuffers_cap 0) = 0 \<and>
   (\<exists>a s' rb. GetOrCreate \<lparr>rbs = \<lparr>sz = 0, bufs = [(''bar'', 0)]\<rparr>, heap = [\<lparr>buf = [] :: int list, cur = 0, len = 0\<rparr>]\<rparr> ''foo''
        = Inr (a, s') \<and> deref (heap s') a = Inr rb \<and> buf rb = [] \<and> len rb = 0)"
proof -
  let ?cs = "[CallGetOrCreate ''bar'', CallAdd 0 (7::int), CallResizeAll 0]"
  let ?sa = "\<lparr>rbs = \<lparr>sz = 1, bufs = [(''bar'', 0)]\<rparr>, heap = [\<lparr>buf = [7::int], cur = 0, len = 1\<rparr>]\<rparr>"
  let ?sb = "\<lparr>rbs = \<lparr>sz = 0, bufs = [(''bar'', 0)]\<rparr>, heap = [\<lparr>buf = [] :: int list, cur = 0, len = 0\<rparr>]\<rparr>"
  have n: "(0::int) < 1" by simp
  have c: "\<forall>c \<in> set ?cs. \<not> changes_default c" by simp
  have ea: "execs (init_state 0) ?cs = Inr ?sa" by (simp add: run_defs)
  have eb: "execs (init_state_cap 0) ?cs = Inr ?sb" by (simp add: run_defs)
  have ka: "map_of (bufs (rbs ?sa)) ''foo'' = None" by simp
  have kb: "map_of (bufs (rbs ?sb)) ''foo'' = None" by simp
  have a: "sz (NewRingBuffers 0) = 1 \<and>
      (\<exists>a s' rb. GetOrCreate ?sa ''foo'' = Inr (a, s') \<and> deref (heap s') a = Inr rb \<and>
         length (buf rb) = 1 \<and> len rb = 0)"
    using C4_default_size_of_constructors[OF n c ka] ea by blast
  have b: "sz (NewRingBuffers_cap 0) = 0 \<and>
      (\<exists>a s' rb. GetOrCreate ?sb ''foo'' = Inr (a, s') \<and> deref (heap s') a = Inr rb \<and>
         buf rb = [] \<and> len rb = 0)"
    using C4_default_size_of_constructors[OF n c kb] eb by blast
  show ?thesis using n c ea eb a b by blast
qed

text \<open>
  The default size is not 1 for every size below 1, and the buffers created do not all
  have capacity 1. \<open>NewRingBuffers(0)\<close> of src/ring\_buffers.go keeps the size 0 and
  \<open>GetOrCreate\<close> creates a buffer of capacity 0; \<open>NewRingBuffers(-1)\<close> keeps \<open>-1\<close>
  and \<open>GetOrCreate\<close> panics. With the constructor of part\_000, after \<open>Resize(5)\<close> on
  the set the buffer that \<open>GetOrCreate\<close> creates has capacity 5.
\<close>

theorem C4_default_size_counterexample:
  "sz (NewRingBuffers_cap 0) = 0 \<and>
   GetOrCreate (init_state_cap 0 :: int pkg_state) ''foo''
     = Inr (0, \<lparr>rbs = \<lparr>sz = 0, bufs = [(''foo'', 0)]\<rparr>, heap = [\<lparr>buf = [], cur = 0, len = 0\<rparr>]\<rparr>) \<and>
   sz (NewRingBuffers_cap (- 1)) = - 1 \<and>
   GetOrCreate (init_state_cap (- 1) :: int pkg_state) ''foo'' = Inl MakeLenOutOfRange \<and>
   sz (NewRingBuffers 0) = 1 \<and>
   execs (init_state 0 :: int pkg_state) [CallResizeAll 5, CallGetOrCreate ''foo'']
     = Inr \<lparr>rbs = \<lparr>sz = 5, bufs = [(''foo'', 0)]\<rparr>, heap = [\<lparr>buf = [0, 0, 0, 0, 0], cur = 0, len = 0\<rparr>]\<rparr>"
proof -
  have five: "replicate 5 (0::int) = [0, 0, 0, 0, 0]" by (simp add: eval_nat_numeral)
  have a: "GetOrCreate (init_state_cap 0 :: int pkg_state) ''foo''
     = Inr (0, \<lparr>rbs = \<lparr>sz = 0, bufs = [(''foo'', 0)]\<rparr>, heap = [\<lparr>buf = [], cur = 0, len = 0\<rparr>]\<rparr>)"
    by (simp add: run_defs)
  have b: "GetOrCreate (init_state_cap (- 1) :: int pkg_state) ''foo'' = Inl MakeLenOutOfRange"
    by (simp add: run_defs)
  have c: "execs (init_state 0 :: int pkg_state) [CallResizeAll 5, CallGetOrCreate ''foo'']
     = Inr \<lparr>rbs = \<lparr>sz = 5, bufs = [(''foo'', 0)]\<rparr>, heap = [\<lparr>buf = [0, 0, 0, 0, 0], cur = 0, len = 0\<rparr>]\<rparr>"
    by (simp add: run_defs five)
  show ?thesis using a b c by (simp add: NewRingBuffers_def NewRingBuffers_cap_def)
qed

end
